theory Spec2Isabelle
  imports Main "HOL-Library.AList"
begin

section \<open>JavaScript values\<close>

text \<open>
  Strings are \<^typ>\<open>string\<close>: instance ids are serial numbers and port names, taken as
  8-bit characters. A value that is either a string or \<^verbatim>\<open>undefined\<close> is a
  \<^typ>\<open>string option\<close>, with \<^term>\<open>None\<close> for \<^verbatim>\<open>undefined\<close>.

  The argument of an \<^verbatim>\<open>error\<close> event is a string of the factory or the error object of
  the driver. A \<^verbatim>\<open>throw\<close> is a value of \<^verbatim>\<open>exn\<close>: \<^verbatim>\<open>Error m\<close> is \<^verbatim>\<open>new Error(m)\<close>,
  \<^verbatim>\<open>TypeError m\<close> is raised by the language itself, and \<^verbatim>\<open>UnhandledError v\<close> is what an
  event emitter throws when it is asked to emit \<^verbatim>\<open>error\<close> with argument \<open>v\<close> and has no
  listener for it (\<open>v\<close> itself when it is an error object, else an
  \<^verbatim>\<open>ERR_UNHANDLED_ERROR\<close> that carries \<open>v\<close>).
\<close>

type_synonym driver_error = string

datatype error_value = Message string | DriverError driver_error

datatype exn = Error string | TypeError string | UnhandledError error_value

definition truthy :: "string option \<Rightarrow> bool" where
  "truthy v = (case v of None \<Rightarrow> False | Some s \<Rightarrow> s \<noteq> [])"

text \<open>The conversion to a string that a property key and \<^verbatim>\<open>RegExp.test\<close> apply.\<close>

definition ToString :: "string option \<Rightarrow> string" where
  "ToString v = (case v of None \<Rightarrow> ''undefined'' | Some s \<Rightarrow> s)"

definition is_digit :: "char \<Rightarrow> bool" where
  "is_digit c = (c \<in> set ''0123456789'')"

definition digit_value :: "char \<Rightarrow> nat" where
  "digit_value c = of_char c - 48"

definition nat_of_decimal :: "string \<Rightarrow> nat" where
  "nat_of_decimal s = foldl (\<lambda>n c. 10 * n + digit_value c) 0 s"

text \<open>
  \<^verbatim>\<open>parseInt(s, 10)\<close> on a string without leading white space or sign (the only
  argument it gets here is a captured digit); \<^term>\<open>None\<close> is \<^verbatim>\<open>NaN\<close>.
\<close>

definition parseInt :: "string \<Rightarrow> int option" where
  "parseInt s = (case takeWhile is_digit s of [] \<Rightarrow> None | d # ds \<Rightarrow> Some (int (nat_of_decimal (d # ds))))"

text \<open>
  An object used as a dictionary is an association list of its own properties in creation
  order: \<^term>\<open>map_of\<close> reads a property, \<^term>\<open>AList.update\<close> assigns one (in place, or
  appended when new), \<^term>\<open>AList.delete\<close> is \<^verbatim>\<open>delete\<close>. A \<^verbatim>\<open>for ... in\<close> loop visits
  the array-index keys first, in ascending numeric order, then the other keys in creation
  order. Properties inherited from \<^verbatim>\<open>Object.prototype\<close> are left out: their names do not end
  in a digit, so no instance id that passes \<^verbatim>\<open>_parseAndCreateAdapter\<close> is one of them, and
  for any other id the pass has thrown before it would store or compare an entry.
\<close>

definition is_array_index :: "string \<Rightarrow> bool" where
  "is_array_index s =
     (s \<noteq> [] \<and> list_all is_digit s \<and> (s = ''0'' \<or> hd s \<noteq> CHR ''0'') \<and> nat_of_decimal s < 2 ^ 32 - 1)"

definition own_keys :: "(string \<times> 'a) list \<Rightarrow> string list" where
  "own_keys obj =
     sort_key nat_of_decimal (filter is_array_index (map fst obj)) @
     filter (\<lambda>k. \<not> is_array_index k) (map fst obj)"

section \<open>Data model of the adapter factory\<close>

text \<open>A device as the driver's \<^verbatim>\<open>getAdapters\<close> reports it.\<close>

record descriptor =
  serialNumber :: "string option"
  comName :: "string option"
  manufacturer :: "string option"

text \<open>The keys of \<^verbatim>\<open>_bleDrivers\<close>: \<^verbatim>\<open>v2\<close> and \<^verbatim>\<open>v3\<close>.\<close>

datatype sd_version = V2 | V3

text \<open>
  Modelled from the spec: the \<^verbatim>\<open>Adapter\<close> class of \<^verbatim>\<open>./adapter\<close> is not among the
  sources. An adapter object is its identity (\<open>adapter_ref\<close>, the number of objects
  allocated before it) and the six arguments its constructor is given; the spec lists the
  same attributes for a logical adapter handle. It is an event emitter whose own events
  are \<^verbatim>\<open>opened\<close> and \<^verbatim>\<open>closed\<close>, emitted with the adapter itself as argument. Its
  listeners are the one part of it the factory changes; they are kept in the \<open>listeners\<close>
  table of the world, keyed by the adapter's identity.
\<close>

record adapter =
  adapter_ref :: nat
  adapter_driver :: sd_version
  adapter_addOnAdapter :: nat
  adapter_instanceId :: "string option"
  adapter_comName :: "string option"
  adapter_serialNumber :: "string option"
  adapter_notSupportedMessage :: "string option"

datatype adapter_event = Opened | Closed

text \<open>The two arrow functions of \<^verbatim>\<open>_setUpListenersForAdapterOpenAndClose\<close>.\<close>

datatype listener = EmitAdapterOpened | EmitAdapterClosed

text \<open>
  What the factory emits on its own stream, \<^verbatim>\<open>this.emit(name, argument)\<close>: the events
  \<^verbatim>\<open>error\<close>, \<^verbatim>\<open>added\<close>, \<^verbatim>\<open>removed\<close>, \<^verbatim>\<open>adapterOpened\<close> and \<^verbatim>\<open>adapterClosed\<close>.
\<close>

datatype event =
    Error_event error_value
  | Added adapter
  | Removed adapter
  | AdapterOpened adapter
  | AdapterClosed adapter

text \<open>
  The callback of \<^verbatim>\<open>_updateAdapterList\<close> is a function of the caller, known by a
  number, or the arrow function that \<^verbatim>\<open>getAdapters\<close> passes, which closes over the
  callback of \<^verbatim>\<open>getAdapters\<close> (\<^term>\<open>None\<close> when that is not a function). A call of a
  caller's function is recorded with its arguments: the error, or \<^verbatim>\<open>undefined\<close> and the
  adapter mapping as it is at the call.
\<close>

datatype callback = UserFunction nat | GetAdaptersArrow "nat option"

datatype callback_args = CallbackError driver_error | CallbackAdapters "(string \<times> adapter) list"

text \<open>
  The state the factory works on: \<open>adapters\<close> is \<^verbatim>\<open>this._adapters\<close>, \<open>events\<close> the events
  the factory has emitted so far on its own stream, \<open>error_listeners\<close> the number of
  listeners that the application has registered on the factory for \<^verbatim>\<open>error\<close> (the factory
  registers none itself), \<open>listeners\<close> the listeners registered on adapter objects,
  \<open>next_ref\<close> the number of objects allocated, \<open>invoked\<close> the calls made to callers'
  functions and \<open>platform\<close> the value of \<^verbatim>\<open>os.platform()\<close>. The listeners and callbacks of
  the application are code outside the sources: they are taken to return.
\<close>

record world =
  platform :: string
  adapters :: "(string \<times> adapter) list"
  events :: "event list"
  error_listeners :: nat
  listeners :: "(nat \<times> adapter_event \<times> listener) list"
  next_ref :: nat
  invoked :: "(nat \<times> callback_args) list"

section \<open>Event emitters\<close>

text \<open>
  \<^verbatim>\<open>this.emit(name, argument)\<close> on the factory. An \<^verbatim>\<open>error\<close> event that no listener is
  registered for is not delivered: the emitter throws instead. Every other event, and an
  \<^verbatim>\<open>error\<close> event with a listener, is delivered and \<^verbatim>\<open>emit\<close> returns.
\<close>

definition emit :: "event \<Rightarrow> world \<Rightarrow> exn option \<times> world" where
  "emit e w =
     (case e of
        Error_event v \<Rightarrow>
          if error_listeners w = 0 then (Some (UnhandledError v), w)
          else (None, w\<lparr>events := events w @ [e]\<rparr>)
      | _ \<Rightarrow> (None, w\<lparr>events := events w @ [e]\<rparr>))"

definition adapter_on :: "adapter \<Rightarrow> adapter_event \<Rightarrow> listener \<Rightarrow> world \<Rightarrow> world" where
  "adapter_on a ev l w = w\<lparr>listeners := listeners w @ [(adapter_ref a, ev, l)]\<rparr>"

definition removeAllListeners :: "adapter \<Rightarrow> adapter_event \<Rightarrow> world \<Rightarrow> world" where
  "removeAllListeners a ev w =
     w\<lparr>listeners := filter (\<lambda>(r, ev', l). \<not> (r = adapter_ref a \<and> ev' = ev)) (listeners w)\<rparr>"

fun run_listener :: "listener \<Rightarrow> adapter \<Rightarrow> world \<Rightarrow> exn option \<times> world" where
  "run_listener EmitAdapterOpened a w = emit (AdapterOpened a) w"
| "run_listener EmitAdapterClosed a w = emit (AdapterClosed a) w"

text \<open>
  The adapter \<open>a\<close> emits its own event \<open>ev\<close>: the listeners registered for it at that
  moment run in registration order, until one throws.
\<close>

fun call_listeners ::
  "(nat \<times> adapter_event \<times> listener) list \<Rightarrow> adapter \<Rightarrow> adapter_event \<Rightarrow> world \<Rightarrow> exn option \<times> world" where
  "call_listeners [] a ev w = (None, w)"
| "call_listeners ((r, ev', l) # rest) a ev w =
     (if r = adapter_ref a \<and> ev' = ev
      then (case run_listener l a w of
              (Some x, w') \<Rightarrow> (Some x, w')
            | (None, w') \<Rightarrow> call_listeners rest a ev w')
      else call_listeners rest a ev w)"

definition adapter_emit :: "adapter \<Rightarrow> adapter_event \<Rightarrow> world \<Rightarrow> exn option \<times> world" where
  "adapter_emit a ev w = call_listeners (listeners w) a ev w"

fun invoke :: "callback \<Rightarrow> callback_args \<Rightarrow> world \<Rightarrow> exn option \<times> world" where
  "invoke (UserFunction f) args w = (None, w\<lparr>invoked := invoked w @ [(f, args)]\<rparr>)"
| "invoke (GetAdaptersArrow callback) (CallbackError e) w =
     (case callback of
        None \<Rightarrow> (Some (TypeError ''callback is not a function''), w)
      | Some f \<Rightarrow> (None, w\<lparr>invoked := invoked w @ [(f, CallbackError e)]\<rparr>))"
| "invoke (GetAdaptersArrow callback) (CallbackAdapters m) w =
     (case callback of
        None \<Rightarrow> (None, w)
      | Some f \<Rightarrow> (None, w\<lparr>invoked := invoked w @ [(f, CallbackAdapters m)]\<rparr>))"

section \<open>The adapter factory\<close>

subsection \<open>\<^verbatim>\<open>_getInstanceId\<close>\<close>

definition getInstanceId :: "descriptor \<Rightarrow> world \<Rightarrow> (exn + string option) \<times> world" where
  "getInstanceId adapter w =
     (if truthy (serialNumber adapter) then (Inr (serialNumber adapter), w)
      else if truthy (comName adapter) then (Inr (comName adapter), w)
      else (case emit (Error_event (Message ''Failed to get adapter instanceId'')) w of
              (Some x, w') \<Rightarrow> (Inl x, w')
            | (None, w') \<Rightarrow> (Inr None, w')))"

subsection \<open>\<^verbatim>\<open>_parseAndCreateAdapter\<close>\<close>

text \<open>
  The regular expression \<^verbatim>\<open>/^.*68([0-3]{1})[0-9]{6}$/\<close>, without flags: the string ends
  with \<^verbatim>\<open>68\<close>, a digit from 0 to 3 and six digits, and nothing before them is a line
  terminator (which \<^verbatim>\<open>.\<close> does not match). \<open>seggerSerialNumber_exec\<close> is \<^verbatim>\<open>exec(s)[1]\<close>,
  the captured group, or \<^term>\<open>None\<close> where \<^verbatim>\<open>test(s)\<close> is false.
\<close>

definition line_terminator :: "char \<Rightarrow> bool" where
  "line_terminator c = (c = CHR 0x0A \<or> c = CHR 0x0D)"

definition seggerSerialNumber_exec :: "string \<Rightarrow> string option" where
  "seggerSerialNumber_exec s =
     (if length s < 9 then None
      else (case drop (length s - 9) s of
              a # b # c # rest \<Rightarrow>
                if list_all (\<lambda>x. \<not> line_terminator x) (take (length s - 9) s)
                   \<and> a = CHR ''6'' \<and> b = CHR ''8'' \<and> c \<in> set ''0123'' \<and> list_all is_digit rest
                then Some [c] else None
            | _ \<Rightarrow> None))"

text \<open>The \<^verbatim>\<open>switch\<close> on \<^verbatim>\<open>developmentKit\<close>.\<close>

definition sdVersion_of_developmentKit :: "int option \<Rightarrow> exn + sd_version" where
  "sdVersion_of_developmentKit developmentKit =
     (if developmentKit = Some 0 \<or> developmentKit = Some 1 then Inr V2
      else if developmentKit = Some 2 then Inr V3
      else if developmentKit = Some 3 then Inr V3
      else Inl (Error ''Unsupported nRF5 development kit.''))"

definition notSupportedMessage_for :: "string \<Rightarrow> string option \<Rightarrow> string option" where
  "notSupportedMessage_for os_platform manufacturer_name =
     (if os_platform = ''darwin'' \<and> manufacturer_name = Some ''MBED''
      then Some ''This adapter with mbed CMSIS firmware is currently not supported on OS X. Please visit www.nordicsemi.com/nRFConnectOSXfix for further instructions.''
      else if os_platform = ''darwin'' \<and> manufacturer_name = Some ''SEGGER''
      then Some ''Note: Adapters with Segger JLink debug probe requires MSD to be disabled to function properly on OSX. Please visit www.nordicsemi.com/nRFConnectOSXfix for further instructions.''
      else None)"

text \<open>
  Both driver generations are present in \<^verbatim>\<open>_bleDrivers\<close>, so \<^verbatim>\<open>new selectedDriver.Adapter()\<close>
  allocates an object of the driver and the check for an undefined \<^verbatim>\<open>addOnAdapter\<close> never
  fires; \<^verbatim>\<open>new Adapter(...)\<close> allocates the adapter object.
\<close>

definition parseAndCreateAdapter :: "descriptor \<Rightarrow> world \<Rightarrow> (exn + adapter) \<times> world" where
  "parseAndCreateAdapter adapter w =
     (case getInstanceId adapter w of
        (Inl x, w1) \<Rightarrow> (Inl x, w1)
      | (Inr instanceId, w1) \<Rightarrow>
          (case seggerSerialNumber_exec (ToString instanceId) of
             None \<Rightarrow> (Inl (Error ''Not able to determine version of pc-ble-driver to use.''), w1)
           | Some captured \<Rightarrow>
               (case sdVersion_of_developmentKit (parseInt captured) of
                  Inl x \<Rightarrow> (Inl x, w1)
                | Inr sdVersion \<Rightarrow>
                    (Inr \<lparr>adapter_ref = next_ref w1 + 1,
                          adapter_driver = sdVersion,
                          adapter_addOnAdapter = next_ref w1,
                          adapter_instanceId = instanceId,
                          adapter_comName = comName adapter,
                          adapter_serialNumber = serialNumber adapter,
                          adapter_notSupportedMessage =
                            notSupportedMessage_for (platform w1) (manufacturer adapter)\<rparr>,
                     w1\<lparr>next_ref := next_ref w1 + 2\<rparr>))))"

subsection \<open>\<^verbatim>\<open>_setUpListenersForAdapterOpenAndClose\<close>\<close>

definition setUpListenersForAdapterOpenAndClose :: "adapter \<Rightarrow> world \<Rightarrow> world" where
  "setUpListenersForAdapterOpenAndClose a w =
     adapter_on a Closed EmitAdapterClosed (adapter_on a Opened EmitAdapterOpened w)"

subsection \<open>\<^verbatim>\<open>_updateAdapterList\<close>\<close>

text \<open>
  One turn of the loop over the enumerated devices. The result is the exception thrown, if
  any, the \<^verbatim>\<open>removedAdapters\<close> object and the world.
\<close>

definition process_adapter ::
  "descriptor \<Rightarrow> (string \<times> adapter) list \<Rightarrow> world \<Rightarrow> exn option \<times> (string \<times> adapter) list \<times> world" where
  "process_adapter adapter removedAdapters w =
     (case getInstanceId adapter w of
        (Inl x, w1) \<Rightarrow> (Some x, removedAdapters, w1)
      | (Inr adapterInstanceId, w1) \<Rightarrow>
          (let key = ToString adapterInstanceId;
               removedAdapters' =
                 (if map_of (adapters w1) key \<noteq> None then AList.delete key removedAdapters
                  else removedAdapters)
           in case parseAndCreateAdapter adapter w1 of
                (Inl x, w2) \<Rightarrow> (Some x, removedAdapters', w2)
              | (Inr newAdapter, w2) \<Rightarrow>
                  if map_of (adapters w2) key = None
                  then (case emit (Added newAdapter)
                               (setUpListenersForAdapterOpenAndClose newAdapter
                                  (w2\<lparr>adapters := AList.update key newAdapter (adapters w2)\<rparr>)) of
                          (x, w3) \<Rightarrow> (x, removedAdapters', w3))
                  else (None, removedAdapters', w2)))"

fun process_adapters ::
  "descriptor list \<Rightarrow> (string \<times> adapter) list \<Rightarrow> world \<Rightarrow> exn option \<times> (string \<times> adapter) list \<times> world" where
  "process_adapters [] removedAdapters w = (None, removedAdapters, w)"
| "process_adapters (adapter # rest) removedAdapters w =
     (case process_adapter adapter removedAdapters w of
        (Some x, removedAdapters', w') \<Rightarrow> (Some x, removedAdapters', w')
      | (None, removedAdapters', w') \<Rightarrow> process_adapters rest removedAdapters' w')"

text \<open>One turn of the loop over the keys of \<^verbatim>\<open>removedAdapters\<close>, and the loop.\<close>

definition remove_adapter :: "string \<Rightarrow> world \<Rightarrow> exn option \<times> world" where
  "remove_adapter adapterId w =
     (case map_of (adapters w) adapterId of
        None \<Rightarrow> (Some (TypeError ''Cannot read property removeAllListeners of undefined''), w)
      | Some removedAdapter \<Rightarrow>
          emit (Removed removedAdapter)
            ((removeAllListeners removedAdapter Opened w)
               \<lparr>adapters := AList.delete adapterId (adapters w)\<rparr>))"

fun remove_adapters :: "string list \<Rightarrow> world \<Rightarrow> exn option \<times> world" where
  "remove_adapters [] w = (None, w)"
| "remove_adapters (adapterId # rest) w =
     (case remove_adapter adapterId w of
        (Some x, w') \<Rightarrow> (Some x, w')
      | (None, w') \<Rightarrow> remove_adapters rest w')"

text \<open>
  The function that \<^verbatim>\<open>_updateAdapterList\<close> passes to the driver's \<^verbatim>\<open>getAdapters\<close>, run
  with the error and the devices the driver reports. An exception leaves the world as it
  was when it was thrown.
\<close>

definition updateAdapterList ::
  "callback option \<Rightarrow> driver_error option \<Rightarrow> descriptor list \<Rightarrow> world \<Rightarrow> exn option \<times> world" where
  "updateAdapterList callback err enumerated w =
     (case err of
        Some e \<Rightarrow>
          (case emit (Error_event (DriverError e)) w of
             (Some x, w1) \<Rightarrow> (Some x, w1)
           | (None, w1) \<Rightarrow>
               (case callback of None \<Rightarrow> (None, w1) | Some f \<Rightarrow> invoke f (CallbackError e) w1))
      | None \<Rightarrow>
          (case process_adapters enumerated (adapters w) w of
             (Some x, removedAdapters, w1) \<Rightarrow> (Some x, w1)
           | (None, removedAdapters, w1) \<Rightarrow>
               (case remove_adapters (own_keys removedAdapters) w1 of
                  (Some x, w2) \<Rightarrow> (Some x, w2)
                | (None, w2) \<Rightarrow>
                    (case callback of
                       None \<Rightarrow> (None, w2)
                     | Some f \<Rightarrow> invoke f (CallbackAdapters (adapters w2)) w2))))"

subsection \<open>\<^verbatim>\<open>getAdapters\<close>\<close>

definition getAdapters ::
  "nat option \<Rightarrow> driver_error option \<Rightarrow> descriptor list \<Rightarrow> world \<Rightarrow> exn option \<times> world" where
  "getAdapters callback err enumerated w =
     updateAdapterList (Some (GetAdaptersArrow callback)) err enumerated w"

subsection \<open>The life of the registry\<close>

text \<open>
  The constructor sets \<^verbatim>\<open>_adapters\<close> to the empty object and registers no listener. From
  then on the driver answers enumerations (started by the timer, without callback, or on
  demand), adapters emit their own events, and the application registers a listener for
  \<^verbatim>\<open>error\<close> on the factory or removes one.
\<close>

definition init_world :: "string \<Rightarrow> world" where
  "init_world os_platform =
     \<lparr>platform = os_platform, adapters = [], events = [], error_listeners = 0, listeners = [],
      next_ref = 0, invoked = []\<rparr>"

datatype input =
    Enumerated "callback option" "driver_error option" "descriptor list"
  | AdapterEmits adapter adapter_event
  | ErrorListenerAdded
  | ErrorListenerRemoved

fun step :: "input \<Rightarrow> world \<Rightarrow> world" where
  "step (Enumerated callback err enumerated) w = snd (updateAdapterList callback err enumerated w)"
| "step (AdapterEmits a ev) w = snd (adapter_emit a ev w)"
| "step ErrorListenerAdded w = w\<lparr>error_listeners := error_listeners w + 1\<rparr>"
| "step ErrorListenerRemoved w = w\<lparr>error_listeners := error_listeners w - 1\<rparr>"

definition run :: "input list \<Rightarrow> world \<Rightarrow> world" where
  "run inputs w = fold step inputs w"

text \<open>
  The handles that are live after a sequence of events: announced by \<^verbatim>\<open>added\<close> and not
  yet by \<^verbatim>\<open>removed\<close>.
\<close>

fun live_after :: "event \<Rightarrow> adapter set \<Rightarrow> adapter set" where
  "live_after (Added a) L = insert a L"
| "live_after (Removed a) L = L - {a}"
| "live_after _ L = L"

definition live :: "event list \<Rightarrow> adapter set" where
  "live evs = fold live_after evs {}"

fun is_added :: "event \<Rightarrow> bool" where
  "is_added (Added a) = True"
| "is_added _ = False"

fun is_removed :: "event \<Rightarrow> bool" where
  "is_removed (Removed a) = True"
| "is_removed _ = False"

subsection \<open>Vocabulary of the statements\<close>

text \<open>
  The value that \<^verbatim>\<open>_getInstanceId\<close> returns for a descriptor, the property key it
  becomes, and whether \<^verbatim>\<open>_parseAndCreateAdapter\<close> finds a driver for it (lemmas
  \<open>getInstanceId_eq\<close>, \<open>parseAndCreateAdapter_classified\<close> and
  \<open>parseAndCreateAdapter_unclassified\<close> tie them to the functions); the \<^verbatim>\<open>error\<close> event
  of \<^verbatim>\<open>_getInstanceId\<close>, what the emitter throws when nobody listens for it, and the
  exception of \<^verbatim>\<open>_parseAndCreateAdapter\<close> for an id that does not match.
\<close>

definition instanceId_of :: "descriptor \<Rightarrow> string option" where
  "instanceId_of d =
     (if truthy (serialNumber d) then serialNumber d
      else if truthy (comName d) then comName d else None)"

definition key_of :: "descriptor \<Rightarrow> string" where
  "key_of d = ToString (instanceId_of d)"

definition classified :: "descriptor \<Rightarrow> bool" where
  "classified d = (seggerSerialNumber_exec (key_of d) \<noteq> None)"

definition missing_instanceId :: event where
  "missing_instanceId = Error_event (Message ''Failed to get adapter instanceId'')"

definition unhandled_missing_instanceId :: exn where
  "unhandled_missing_instanceId = UnhandledError (Message ''Failed to get adapter instanceId'')"

definition unknown_driver_version :: exn where
  "unknown_driver_version = Error ''Not able to determine version of pc-ble-driver to use.''"


text \<open>
  What holds of the registry at every moment of its life (lemma \<open>registry_inv_run\<close>): the
  mapping has one entry per key, every handle is filed under its own instance id, and the
  live handles are those of the mapping.
\<close>

definition registry_inv :: "world \<Rightarrow> bool" where
  "registry_inv w =
     (distinct (map fst (adapters w))
      \<and> list_all (\<lambda>(k, a). adapter_instanceId a = Some k) (adapters w)
      \<and> live (events w) = snd ` set (adapters w))"

subsection \<open>Sample devices\<close>

text \<open>
  Two development kits, a serial port of another vendor and a device that reports neither
  a serial number nor a port name; \<open>handle_v2\<close> is the adapter the factory creates for
  \<open>kit_v2\<close> when it is the first device it sees.
\<close>

definition kit_v2 :: descriptor where
  "kit_v2 = \<lparr>serialNumber = Some ''680123456'', comName = Some ''COM3'', manufacturer = Some ''SEGGER''\<rparr>"

definition kit_v3 :: descriptor where
  "kit_v3 = \<lparr>serialNumber = Some ''000682123456'', comName = Some ''COM4'', manufacturer = Some ''SEGGER''\<rparr>"

definition other_port :: descriptor where
  "other_port = \<lparr>serialNumber = None, comName = Some ''COM1'', manufacturer = None\<rparr>"

definition nameless :: descriptor where
  "nameless = \<lparr>serialNumber = None, comName = None, manufacturer = None\<rparr>"

definition handle_v2 :: adapter where
  "handle_v2 =
     \<lparr>adapter_ref = 1, adapter_driver = V2, adapter_addOnAdapter = 0,
      adapter_instanceId = Some ''680123456'', adapter_comName = Some ''COM3'',
      adapter_serialNumber = Some ''680123456'', adapter_notSupportedMessage = None\<rparr>"

section \<open>The singleton gate\<close>

text \<open>
  \<^verbatim>\<open>_singleton\<close> is the symbol the module creates when it is loaded; a caller of the
  constructor passes any value as the token.
\<close>

datatype js_value = Undefined | Symbol nat | Other string

definition singleton_token :: js_value where
  "singleton_token = Symbol 0"

datatype bleDrivers = DefaultDrivers | InjectedDrivers nat

text \<open>
  The class object: \<open>singleton_slot\<close> is its property \<^verbatim>\<open>AdapterFactory[_singleton]\<close> and
  \<open>instances\<close> the factories constructed so far, each with the drivers it was given; a
  factory's identity is its index.
\<close>

record factory_class =
  singleton_slot :: "nat option"
  instances :: "bleDrivers list"

definition AdapterFactory_constructor ::
  "js_value \<Rightarrow> bleDrivers \<Rightarrow> factory_class \<Rightarrow> (exn + nat) \<times> factory_class" where
  "AdapterFactory_constructor singletonToken drivers c =
     (if singleton_token \<noteq> singletonToken then (Inl (Error ''Cannot instantiate directly.''), c)
      else (Inr (length (instances c)), c\<lparr>instances := instances c @ [drivers]\<rparr>))"

definition getInstance :: "bleDrivers option \<Rightarrow> factory_class \<Rightarrow> (exn + nat) \<times> factory_class" where
  "getInstance drivers c =
     (let drivers' = (case drivers of None \<Rightarrow> DefaultDrivers | Some d \<Rightarrow> d) in
      case singleton_slot c of
        Some f \<Rightarrow> (Inr f, c)
      | None \<Rightarrow>
          (case AdapterFactory_constructor singleton_token drivers' c of
             (Inl x, c') \<Rightarrow> (Inl x, c')
           | (Inr f, c') \<Rightarrow> (Inr f, c'\<lparr>singleton_slot := Some f\<rparr>)))"

fun getInstances :: "bleDrivers option list \<Rightarrow> factory_class \<Rightarrow> (exn + nat) list \<times> factory_class" where
  "getInstances [] c = ([], c)"
| "getInstances (d # ds) c =
     (let (r, c') = getInstance d c; (rs, c'') = getInstances ds c' in (r # rs, c''))"

section \<open>Characteristics\<close>

text \<open>
  The module's counter \<^verbatim>\<open>i\<close> is a number, that is a double, that starts at 1 and changes
  by \<^verbatim>\<open>i++\<close> alone. Its values are the whole numbers from 1 to \<open>2 ^ 53\<close>: below
  \<open>2 ^ 53\<close> the sum \<^verbatim>\<open>i + 1\<close> is exact, at \<open>2 ^ 53\<close> it is rounded back to \<open>2 ^ 53\<close>, so
  the counter stays there; no larger value is ever reached, and \<open>increment\<close> is
  \<^verbatim>\<open>i++\<close> on the values up to \<open>2 ^ 53\<close>. \<open>toString\<close> is the decimal notation that
  \<^verbatim>\<open>Number.prototype.toString\<close> gives such a number.
\<close>

definition increment :: "nat \<Rightarrow> nat" where
  "increment i = (if i < 2 ^ 53 then i + 1 else i)"

record ('u, 'p, 'v) characteristic =
  char_instanceId :: string
  char_serviceInstanceId :: string
  uuid :: 'u
  char_name :: "string option"
  properties :: 'p
  char_value :: 'v

definition digit_char :: "nat \<Rightarrow> char" where
  "digit_char d = char_of (48 + d)"

fun toString :: "nat \<Rightarrow> string" where
  "toString n = (if n < 10 then [digit_char n] else toString (n div 10) @ [digit_char (n mod 10)])"

declare toString.simps [simp del]

definition Characteristic ::
  "string \<Rightarrow> 'u \<Rightarrow> 'p \<Rightarrow> 'v \<Rightarrow> nat \<Rightarrow> ('u, 'p, 'v) characteristic \<times> nat" where
  "Characteristic serviceInstanceId u p v i =
     (\<lparr>char_instanceId = serviceInstanceId @ ''.'' @ toString i,
       char_serviceInstanceId = serviceInstanceId,
       uuid = u, char_name = None, properties = p, char_value = v\<rparr>,
      increment i)"

text \<open>Constructing one characteristic after another, from the given arguments.\<close>

fun construct_all ::
  "(string \<times> 'u \<times> 'p \<times> 'v) list \<Rightarrow> nat \<Rightarrow> ('u, 'p, 'v) characteristic list \<times> nat" where
  "construct_all [] i = ([], i)"
| "construct_all ((s, u, p, v) # rest) i =
     (let (c, i') = Characteristic s u p v i; (cs, i'') = construct_all rest i' in (c # cs, i''))"

section \<open>Classification by serial number\<close>

text \<open>
  The executable reading of the regular expression agrees with its declarative one: a
  prefix free of line terminators, then \<^verbatim>\<open>68\<close>, the captured digit and six digits.
\<close>

lemma seggerSerialNumber_exec_Some_iff:
  "seggerSerialNumber_exec s = Some g \<longleftrightarrow>
     (\<exists>p d t. s = p @ ''68'' @ [d] @ t \<and> g = [d] \<and> list_all (\<lambda>x. \<not> line_terminator x) p
        \<and> d \<in> set ''0123'' \<and> length t = 6 \<and> list_all is_digit t)"
proof
  assume a: "seggerSerialNumber_exec s = Some g"
  then have len: "9 \<le> length s"
    by (auto simp: seggerSerialNumber_exec_def split: if_splits)
  define p where "p = take (length s - 9) s"
  define q where "q = drop (length s - 9) s"
  have s: "s = p @ q" and lq: "length q = 9"
    using len by (simp_all add: p_def q_def)
  from lq obtain a b c rest where q: "q = a # b # c # rest" and lr: "length rest = 6"
    by (cases q; simp; rename_tac q1; case_tac q1; simp; rename_tac q2; case_tac q2; simp)
  from a have "list_all (\<lambda>x. \<not> line_terminator x) p \<and> a = CHR ''6'' \<and> b = CHR ''8''
      \<and> c \<in> set ''0123'' \<and> list_all is_digit rest \<and> g = [c]"
    using len q unfolding seggerSerialNumber_exec_def p_def [symmetric] q_def [symmetric]
    by (auto split: if_splits)
  with s q lr show "\<exists>p d t. s = p @ ''68'' @ [d] @ t \<and> g = [d] \<and> list_all (\<lambda>x. \<not> line_terminator x) p
        \<and> d \<in> set ''0123'' \<and> length t = 6 \<and> list_all is_digit t"
    by (intro exI [of _ p] exI [of _ c] exI [of _ rest]) simp
next
  assume "\<exists>p d t. s = p @ ''68'' @ [d] @ t \<and> g = [d] \<and> list_all (\<lambda>x. \<not> line_terminator x) p
        \<and> d \<in> set ''0123'' \<and> length t = 6 \<and> list_all is_digit t"
  then obtain p d t where s: "s = p @ ''68'' @ [d] @ t" and g: "g = [d]"
    and p: "list_all (\<lambda>x. \<not> line_terminator x) p" and d: "d \<in> set ''0123''"
    and t: "length t = 6" "list_all is_digit t"
    by blast
  have "length s - 9 = length p" using s t by simp
  then show "seggerSerialNumber_exec s = Some g"
    using s g p d t by (simp add: seggerSerialNumber_exec_def)
qed

text \<open>The pattern admits no captured digit beyond 3, so the \<^verbatim>\<open>default\<close> of the switch is dead.\<close>

lemma captured_digit:
  "seggerSerialNumber_exec s = Some g \<Longrightarrow> g = ''0'' \<or> g = ''1'' \<or> g = ''2'' \<or> g = ''3''"
  by (auto simp: seggerSerialNumber_exec_Some_iff)

lemma parseInt_captured:
  "parseInt ''0'' = Some 0" "parseInt ''1'' = Some 1" "parseInt ''2'' = Some 2" "parseInt ''3'' = Some 3"
  by (simp_all add: parseInt_def is_digit_def nat_of_decimal_def digit_value_def)


text \<open>What \<^verbatim>\<open>emit\<close> does, event by event.\<close>

lemma emit_delivered [simp]:
  "emit (Added a) w = (None, w\<lparr>events := events w @ [Added a]\<rparr>)"
  "emit (Removed a) w = (None, w\<lparr>events := events w @ [Removed a]\<rparr>)"
  "emit (AdapterOpened a) w = (None, w\<lparr>events := events w @ [AdapterOpened a]\<rparr>)"
  "emit (AdapterClosed a) w = (None, w\<lparr>events := events w @ [AdapterClosed a]\<rparr>)"
  by (simp_all add: emit_def)

lemma emit_error:
  "emit (Error_event v) w =
     (if error_listeners w = 0 then (Some (UnhandledError v), w)
      else (None, w\<lparr>events := events w @ [Error_event v]\<rparr>))"
  by (simp add: emit_def)

lemma getInstanceId_eq:
  "getInstanceId d w =
     (if instanceId_of d \<noteq> None then (Inr (instanceId_of d), w)
      else if error_listeners w = 0 then (Inl unhandled_missing_instanceId, w)
      else (Inr None, w\<lparr>events := events w @ [missing_instanceId]\<rparr>))"
  by (auto simp: getInstanceId_def instanceId_of_def truthy_def missing_instanceId_def
      unhandled_missing_instanceId_def emit_error split: option.splits)

lemma classified_instanceId: "classified d \<Longrightarrow> instanceId_of d = Some (key_of d)"
  by (cases "instanceId_of d")
     (simp_all add: classified_def key_of_def ToString_def seggerSerialNumber_exec_def)

lemma sdVersion_of_captured:
  "seggerSerialNumber_exec s = Some g \<Longrightarrow> \<exists>v. sdVersion_of_developmentKit (parseInt g) = Inr v"
  using captured_digit [of s g] by (auto simp: parseInt_captured sdVersion_of_developmentKit_def)

lemma parseAndCreateAdapter_unhandled:
  "instanceId_of d = None \<Longrightarrow> error_listeners w = 0 \<Longrightarrow>
     parseAndCreateAdapter d w = (Inl unhandled_missing_instanceId, w)"
  by (simp add: parseAndCreateAdapter_def getInstanceId_eq)

lemma parseAndCreateAdapter_unclassified:
  "\<not> classified d \<Longrightarrow> instanceId_of d \<noteq> None \<or> 0 < error_listeners w \<Longrightarrow>
     parseAndCreateAdapter d w =
       (Inl unknown_driver_version,
        if instanceId_of d = None then w\<lparr>events := events w @ [missing_instanceId]\<rparr> else w)"
  by (auto simp: parseAndCreateAdapter_def getInstanceId_eq classified_def key_of_def
      unknown_driver_version_def)

lemma parseAndCreateAdapter_classified:
  assumes "classified d"
  shows "\<exists>a. parseAndCreateAdapter d w = (Inr a, w\<lparr>next_ref := next_ref w + 2\<rparr>)
           \<and> adapter_instanceId a = Some (key_of d) \<and> adapter_ref a = next_ref w + 1
           \<and> adapter_driver a
               = (if the (seggerSerialNumber_exec (key_of d)) \<in> {''0'', ''1''} then V2 else V3)"
proof -
  from assms obtain g where g: "seggerSerialNumber_exec (key_of d) = Some g"
    by (auto simp: classified_def)
  have k: "ToString (Some (key_of d)) = key_of d" by (simp add: ToString_def)
  from captured_digit [OF g] show ?thesis
    by (auto simp: parseAndCreateAdapter_def getInstanceId_eq classified_instanceId [OF assms] k g
        parseInt_captured sdVersion_of_developmentKit_def)
qed

text \<open>
  C1. For a descriptor whose instance id matches the Segger pattern,
  \<^verbatim>\<open>_parseAndCreateAdapter\<close> binds the adapter to the driver that the captured digit selects:
  0 or 1 gives \<^verbatim>\<open>v2\<close>, 2 or 3 gives \<^verbatim>\<open>v3\<close>, any other captured digit fails with
  \<^verbatim>\<open>Unsupported nRF5 development kit.\<close>; an instance id that does not match fails with
  \<^verbatim>\<open>Not able to determine version of pc-ble-driver to use.\<close> The id is the one that
  \<^verbatim>\<open>_getInstanceId\<close> returns. A descriptor without instance id counts as not matching when
  somebody listens for \<^verbatim>\<open>error\<close> on the factory; when nobody does, the \<^verbatim>\<open>error\<close> event of
  \<^verbatim>\<open>_getInstanceId\<close> is thrown before the pattern is tried. The last conjunct is the table of
  the switch itself, for every value of \<^verbatim>\<open>developmentKit\<close>.
\<close>

theorem C1_classification_table:
  "(seggerSerialNumber_exec (key_of d) = Some captured \<longrightarrow>
      fst (getInstanceId d w) = Inr (Some (key_of d))
    \<and> (captured = ''0'' \<or> captured = ''1'' \<longrightarrow>
         (\<exists>a. fst (parseAndCreateAdapter d w) = Inr a \<and> adapter_driver a = V2))
    \<and> (captured = ''2'' \<or> captured = ''3'' \<longrightarrow>
         (\<exists>a. fst (parseAndCreateAdapter d w) = Inr a \<and> adapter_driver a = V3))
    \<and> (captured \<notin> {''0'', ''1'', ''2'', ''3''} \<longrightarrow>
         fst (parseAndCreateAdapter d w) = Inl (Error ''Unsupported nRF5 development kit.'')))
   \<and> (seggerSerialNumber_exec (key_of d) = None
        \<and> (instanceId_of d \<noteq> None \<or> 0 < error_listeners w) \<longrightarrow>
        fst (getInstanceId d w) = Inr (instanceId_of d)
        \<and> fst (parseAndCreateAdapter d w)
          = Inl (Error ''Not able to determine version of pc-ble-driver to use.''))
   \<and> (instanceId_of d = None \<and> error_listeners w = 0 \<longrightarrow>
        fst (parseAndCreateAdapter d w)
          = Inl (UnhandledError (Message ''Failed to get adapter instanceId'')))
   \<and> sdVersion_of_developmentKit developmentKit =
        (if developmentKit \<in> {Some 0, Some 1} then Inr V2
         else if developmentKit \<in> {Some 2, Some 3} then Inr V3
         else Inl (Error ''Unsupported nRF5 development kit.''))"
proof (intro conjI impI)
  assume m: "seggerSerialNumber_exec (key_of d) = Some captured"
  then have c: "classified d" by (simp add: classified_def)
  from classified_instanceId [OF c]
  show "fst (getInstanceId d w) = Inr (Some (key_of d))"
    by (simp add: getInstanceId_eq)
  from parseAndCreateAdapter_classified [OF c, of w] obtain a where
    a: "fst (parseAndCreateAdapter d w) = Inr a"
      "adapter_driver a = (if captured \<in> {''0'', ''1''} then V2 else V3)"
    using m by auto
  { assume "captured = ''0'' \<or> captured = ''1''"
    with a show "\<exists>a. fst (parseAndCreateAdapter d w) = Inr a \<and> adapter_driver a = V2" by auto
  }
  { assume "captured = ''2'' \<or> captured = ''3''"
    with a show "\<exists>a. fst (parseAndCreateAdapter d w) = Inr a \<and> adapter_driver a = V3" by auto
  }
  { assume "captured \<notin> {''0'', ''1'', ''2'', ''3''}"
    with captured_digit [OF m]
    show "fst (parseAndCreateAdapter d w) = Inl (Error ''Unsupported nRF5 development kit.'')"
      by simp
  }
next
  assume n: "seggerSerialNumber_exec (key_of d) = None
      \<and> (instanceId_of d \<noteq> None \<or> 0 < error_listeners w)"
  then show "fst (getInstanceId d w) = Inr (instanceId_of d)"
    by (auto simp: getInstanceId_eq)
  from n have "\<not> classified d" by (simp add: classified_def)
  with n show "fst (parseAndCreateAdapter d w)
      = Inl (Error ''Not able to determine version of pc-ble-driver to use.'')"
    by (simp add: parseAndCreateAdapter_unclassified unknown_driver_version_def)
next
  assume "instanceId_of d = None \<and> error_listeners w = 0"
  then show "fst (parseAndCreateAdapter d w)
      = Inl (UnhandledError (Message ''Failed to get adapter instanceId''))"
    by (simp add: parseAndCreateAdapter_unhandled unhandled_missing_instanceId_def)
next
  show "sdVersion_of_developmentKit developmentKit =
        (if developmentKit \<in> {Some 0, Some 1} then Inr V2
         else if developmentKit \<in> {Some 2, Some 3} then Inr V3
         else Inl (Error ''Unsupported nRF5 development kit.''))"
    by (simp add: sdVersion_of_developmentKit_def)
qed

theorem C1_classification_table_witness:
  "(\<exists>a. fst (parseAndCreateAdapter \<lparr>serialNumber = Some ''680123456'', comName = None, manufacturer = None\<rparr>
            (init_world ''linux'')) = Inr a \<and> adapter_driver a = V2)
   \<and> (\<exists>a. fst (parseAndCreateAdapter \<lparr>serialNumber = None, comName = Some ''000683000001'', manufacturer = None\<rparr>
            (init_world ''linux'')) = Inr a \<and> adapter_driver a = V3)
   \<and> fst (parseAndCreateAdapter \<lparr>serialNumber = Some ''684123456'', comName = None, manufacturer = None\<rparr>
            (init_world ''linux''))
       = Inl (Error ''Not able to determine version of pc-ble-driver to use.'')
   \<and> fst (parseAndCreateAdapter \<lparr>serialNumber = None, comName = None, manufacturer = None\<rparr>
            (init_world ''linux''))
       = Inl (UnhandledError (Message ''Failed to get adapter instanceId''))"
proof -
  let ?w = "init_world ''linux''"
  let ?d0 = "\<lparr>serialNumber = Some ''680123456'', comName = None, manufacturer = None\<rparr>"
  let ?d3 = "\<lparr>serialNumber = None, comName = Some ''000683000001'', manufacturer = None\<rparr>"
  let ?d4 = "\<lparr>serialNumber = Some ''684123456'', comName = None, manufacturer = None\<rparr>"
  let ?dn = "\<lparr>serialNumber = None, comName = None, manufacturer = None\<rparr>"
  note defs = key_of_def instanceId_of_def truthy_def ToString_def seggerSerialNumber_exec_def
    line_terminator_def is_digit_def
  have m0: "seggerSerialNumber_exec (key_of ?d0) = Some ''0''" by (simp add: defs)
  have m3: "seggerSerialNumber_exec (key_of ?d3) = Some ''3''" by (simp add: defs)
  have m4: "seggerSerialNumber_exec (key_of ?d4) = None \<and> instanceId_of ?d4 \<noteq> None"
    by (simp add: defs)
  have mn: "instanceId_of ?dn = None \<and> error_listeners ?w = 0"
    by (simp add: defs init_world_def)
  from C1_classification_table [of ?d0 "''0''" ?w None] m0
  have 1: "\<exists>a. fst (parseAndCreateAdapter ?d0 ?w) = Inr a \<and> adapter_driver a = V2" by simp
  from C1_classification_table [of ?d3 "''3''" ?w None] m3
  have 2: "\<exists>a. fst (parseAndCreateAdapter ?d3 ?w) = Inr a \<and> adapter_driver a = V3" by simp
  from C1_classification_table [of ?d4 "''x''" ?w None] m4
  have 3: "fst (parseAndCreateAdapter ?d4 ?w)
      = Inl (Error ''Not able to determine version of pc-ble-driver to use.'')" by simp
  from C1_classification_table [of ?dn "''x''" ?w None] mn
  have 4: "fst (parseAndCreateAdapter ?dn ?w)
      = Inl (UnhandledError (Message ''Failed to get adapter instanceId''))" by simp
  from 1 2 3 4 show ?thesis by (intro conjI)
qed

section \<open>One turn of the loop over the enumerated devices\<close>

lemma update_absent: "map_of m k = None \<Longrightarrow> AList.update k v m = m @ [(k, v)]"
  by (induction m) (auto split: if_splits)

lemma process_adapter_unhandled:
  "instanceId_of d = None \<Longrightarrow> error_listeners w = 0 \<Longrightarrow>
     process_adapter d R w = (Some unhandled_missing_instanceId, R, w)"
  by (simp add: process_adapter_def getInstanceId_eq)

lemma process_adapter_unclassified:
  "\<not> classified d \<Longrightarrow> instanceId_of d \<noteq> None \<or> 0 < error_listeners w \<Longrightarrow>
     process_adapter d R w =
       (Some unknown_driver_version,
        if map_of (adapters w) (key_of d) \<noteq> None then AList.delete (key_of d) R else R,
        if instanceId_of d = None
        then w\<lparr>events := events w @ [missing_instanceId, missing_instanceId]\<rparr> else w)"
  by (auto simp: process_adapter_def getInstanceId_eq parseAndCreateAdapter_unclassified
      key_of_def Let_def)

lemma process_adapter_present:
  assumes "classified d" and "map_of (adapters w) (key_of d) = Some a"
  shows "process_adapter d R w = (None, AList.delete (key_of d) R, w\<lparr>next_ref := next_ref w + 2\<rparr>)"
proof -
  from parseAndCreateAdapter_classified [OF assms(1), of w] obtain b
    where "parseAndCreateAdapter d w = (Inr b, w\<lparr>next_ref := next_ref w + 2\<rparr>)" by blast
  then show ?thesis
    using assms
    by (simp add: process_adapter_def getInstanceId_eq classified_instanceId ToString_def Let_def)
qed

lemma process_adapter_absent:
  assumes "classified d" and "map_of (adapters w) (key_of d) = None"
  shows "\<exists>a. adapter_instanceId a = Some (key_of d) \<and> adapter_ref a = next_ref w + 1 \<and>
     process_adapter d R w =
       (None, R,
        w\<lparr>next_ref := next_ref w + 2,
          adapters := adapters w @ [(key_of d, a)],
          listeners := listeners w @ [(adapter_ref a, Opened, EmitAdapterOpened),
                                      (adapter_ref a, Closed, EmitAdapterClosed)],
          events := events w @ [Added a]\<rparr>)"
proof -
  from parseAndCreateAdapter_classified [OF assms(1), of w] obtain a
    where a: "parseAndCreateAdapter d w = (Inr a, w\<lparr>next_ref := next_ref w + 2\<rparr>)"
      "adapter_instanceId a = Some (key_of d)" "adapter_ref a = next_ref w + 1" by blast
  have "process_adapter d R w =
       (None, R,
        w\<lparr>next_ref := next_ref w + 2,
          adapters := adapters w @ [(key_of d, a)],
          listeners := listeners w @ [(adapter_ref a, Opened, EmitAdapterOpened),
                                      (adapter_ref a, Closed, EmitAdapterClosed)],
          events := events w @ [Added a]\<rparr>)"
    using assms a(1)
    by (simp add: process_adapter_def getInstanceId_eq classified_instanceId ToString_def Let_def
        update_absent setUpListenersForAdapterOpenAndClose_def adapter_on_def)
  with a(2,3) show ?thesis by blast
qed

section \<open>The loops of a reconcile pass\<close>

lemma process_adapter_cases [case_names unhandled unclassified present absent]:
  obtains
    (unhandled) "instanceId_of d = None" "error_listeners w = 0" "\<not> classified d"
      "process_adapter d R w = (Some unhandled_missing_instanceId, R, w)"
  | (unclassified) "\<not> classified d" "instanceId_of d \<noteq> None \<or> 0 < error_listeners w"
      "process_adapter d R w =
        (Some unknown_driver_version,
         if map_of (adapters w) (key_of d) \<noteq> None then AList.delete (key_of d) R else R,
         if instanceId_of d = None
         then w\<lparr>events := events w @ [missing_instanceId, missing_instanceId]\<rparr> else w)"
  | (present) a where "classified d" "map_of (adapters w) (key_of d) = Some a"
      "process_adapter d R w = (None, AList.delete (key_of d) R, w\<lparr>next_ref := next_ref w + 2\<rparr>)"
  | (absent) a where "classified d" "map_of (adapters w) (key_of d) = None"
      "adapter_instanceId a = Some (key_of d)" "adapter_ref a = next_ref w + 1"
      "process_adapter d R w =
        (None, R,
         w\<lparr>next_ref := next_ref w + 2,
           adapters := adapters w @ [(key_of d, a)],
           listeners := listeners w @ [(adapter_ref a, Opened, EmitAdapterOpened),
                                       (adapter_ref a, Closed, EmitAdapterClosed)],
           events := events w @ [Added a]\<rparr>)"
proof (cases "classified d")
  case False
  show ?thesis
  proof (cases "instanceId_of d = None \<and> error_listeners w = 0")
    case True
    show ?thesis
      by (rule unhandled) (use True False process_adapter_unhandled [of d w R] in simp_all)
  next
    case f: False
    then have "instanceId_of d \<noteq> None \<or> 0 < error_listeners w" by auto
    show ?thesis
      by (rule unclassified) (use \<open>instanceId_of d \<noteq> None \<or> 0 < error_listeners w\<close> False
          process_adapter_unclassified [of d w R] in simp_all)
  qed
next
  case True
  show ?thesis
  proof (cases "map_of (adapters w) (key_of d)")
    case None
    with True process_adapter_absent [of d w R] absent show ?thesis by blast
  next
    case (Some a)
    with True process_adapter_present [of d w a R] present show ?thesis by blast
  qed
qed


lemma process_adapters_invariant:
  assumes "P R w"
    and "\<And>d R w. d \<in> set ds \<Longrightarrow> P R w \<Longrightarrow>
           P (fst (snd (process_adapter d R w))) (snd (snd (process_adapter d R w)))"
  shows "P (fst (snd (process_adapters ds R w))) (snd (snd (process_adapters ds R w)))"
  using assms
proof (induction ds arbitrary: R w)
  case Nil
  then show ?case by simp
next
  case (Cons d ds)
  obtain x R' w' where s: "process_adapter d R w = (x, R', w')" by (cases "process_adapter d R w")
  from Cons.prems(2) [of d R w] Cons.prems(1) s have p: "P R' w'" by simp
  show ?case
  proof (cases x)
    case None
    with s Cons.IH [of R' w'] p Cons.prems(2) show ?thesis by simp
  next
    case (Some e)
    with s p show ?thesis by simp
  qed
qed

lemma process_adapters_outcome:
  "(fst (process_adapters ds R w) = None) = list_all classified ds"
proof (induction ds arbitrary: R w)
  case Nil
  then show ?case by simp
next
  case (Cons d ds)
  show ?case
    by (cases rule: process_adapter_cases [of d w R]) (simp_all add: Cons.IH)
qed

section \<open>Invariants of a reconcile pass\<close>

lemma live_snoc: "live (evs @ [e]) = live_after e (live evs)"
  by (simp add: live_def)

lemma live_append_errors [simp]: "live (evs @ [missing_instanceId, missing_instanceId]) = live evs"
  by (simp add: live_def missing_instanceId_def)

lemma remove_adapter_eq:
  "remove_adapter k w =
     (case map_of (adapters w) k of
        None \<Rightarrow> (Some (TypeError ''Cannot read property removeAllListeners of undefined''), w)
      | Some a \<Rightarrow>
          (None, (removeAllListeners a Opened w)
                   \<lparr>adapters := AList.delete k (adapters w), events := events w @ [Removed a]\<rparr>))"
  by (simp add: remove_adapter_def removeAllListeners_def split: option.splits)

lemma remove_adapters_invariant:
  assumes "P w"
    and "\<And>k a w. k \<in> set ks \<Longrightarrow> P w \<Longrightarrow> map_of (adapters w) k = Some a \<Longrightarrow>
           P ((removeAllListeners a Opened w)
                \<lparr>adapters := AList.delete k (adapters w), events := events w @ [Removed a]\<rparr>)"
  shows "P (snd (remove_adapters ks w))"
  using assms
proof (induction ks arbitrary: w)
  case Nil
  then show ?case by simp
next
  case (Cons k ks)
  show ?case
  proof (cases "map_of (adapters w) k")
    case None
    with Cons.prems(1) show ?thesis by (simp add: remove_adapter_eq)
  next
    case (Some a)
    from Cons.prems(2) [of k w a] Cons.prems(1) Some
    have "P ((removeAllListeners a Opened w)
                \<lparr>adapters := AList.delete k (adapters w), events := events w @ [Removed a]\<rparr>)"
      by simp
    from Cons.IH [OF this] Cons.prems(2) Some show ?thesis by (simp add: remove_adapter_eq)
  qed
qed

lemma invoke_fields [simp]:
  "adapters (snd (invoke f args w)) = adapters w"
  "events (snd (invoke f args w)) = events w"
  "error_listeners (snd (invoke f args w)) = error_listeners w"
  "listeners (snd (invoke f args w)) = listeners w"
  "next_ref (snd (invoke f args w)) = next_ref w"
  "platform (snd (invoke f args w)) = platform w"
  by (cases f; cases args; simp split: option.splits)+

text \<open>A property of the mapping and the events that every turn of both loops keeps is kept by the pass.\<close>

lemma updateAdapterList_invariant:
  assumes init: "P w"
    and congr: "\<And>w w'. adapters w' = adapters w \<Longrightarrow> events w' = events w \<Longrightarrow> P w \<Longrightarrow> P w'"
    and err: "\<And>e w. P w \<Longrightarrow> P (w\<lparr>events := events w @ [Error_event e]\<rparr>)"
    and add: "\<And>d w a. d \<in> set ds \<Longrightarrow> P w \<Longrightarrow> classified d \<Longrightarrow> map_of (adapters w) (key_of d) = None \<Longrightarrow>
          adapter_instanceId a = Some (key_of d) \<Longrightarrow>
          P (w\<lparr>adapters := adapters w @ [(key_of d, a)], events := events w @ [Added a]\<rparr>)"
    and rem: "\<And>k a w. P w \<Longrightarrow> map_of (adapters w) k = Some a \<Longrightarrow>
          P (w\<lparr>adapters := AList.delete k (adapters w), events := events w @ [Removed a]\<rparr>)"
  shows "P (snd (updateAdapterList callback e ds w))"
proof (cases e)
  case (Some x)
  let ?w1 = "w\<lparr>events := events w @ [Error_event (DriverError x)]\<rparr>"
  have p1: "P ?w1" by (rule err [OF init])
  have "P (snd (invoke f (CallbackError x) ?w1))" for f
    by (rule congr [OF _ _ p1]) simp_all
  with Some p1 init show ?thesis
    by (cases callback) (simp_all add: updateAdapterList_def emit_error)
next
  case None
  let ?r = "process_adapters ds (adapters w) w"
  have loop: "P (snd (snd ?r))"
  proof (rule process_adapters_invariant [where P = "\<lambda>R. P"])
    show "P w" by (rule init)
  next
    fix d R w
    assume d: "d \<in> set ds" and p: "P w"
    show "P (snd (snd (process_adapter d R w)))"
    proof (cases rule: process_adapter_cases [of d w R])
      case unhandled
      with p show ?thesis by simp
    next
      case unclassified
      have "P (w\<lparr>events := events w @ [missing_instanceId, missing_instanceId]\<rparr>)"
        using err [OF err [OF p], of "Message ''Failed to get adapter instanceId''"
            "Message ''Failed to get adapter instanceId''"]
        by (simp add: missing_instanceId_def)
      with p show ?thesis by (simp add: unclassified(3))
    next
      case (present a)
      have "P (w\<lparr>next_ref := next_ref w + 2\<rparr>)" by (rule congr [OF _ _ p]) simp_all
      then show ?thesis by (simp add: present(3))
    next
      case (absent a)
      have "P (w\<lparr>adapters := adapters w @ [(key_of d, a)], events := events w @ [Added a]\<rparr>)"
        by (rule add [OF d p absent(1,2,3)])
      then show ?thesis
        by (rule congr [rotated 2]) (simp_all add: absent(5))
    qed
  qed
  obtain x R' wL where r: "?r = (x, R', wL)" by (cases ?r)
  show ?thesis
  proof (cases x)
    case (Some ex)
    with r loop None show ?thesis by (simp add: updateAdapterList_def)
  next
    case xNone: None
    have removal: "P (snd (remove_adapters (own_keys R') wL))"
    proof (rule remove_adapters_invariant)
      show "P wL" using loop r by simp
    next
      fix k a w
      assume "P w" "map_of (adapters w) k = Some a"
      from rem [OF this]
      show "P ((removeAllListeners a Opened w)
                \<lparr>adapters := AList.delete k (adapters w), events := events w @ [Removed a]\<rparr>)"
        by (rule congr [rotated 2]) (simp_all add: removeAllListeners_def)
    qed
    obtain y w2 where m: "remove_adapters (own_keys R') wL = (y, w2)"
      by (cases "remove_adapters (own_keys R') wL")
    from removal m have pw2: "P w2" by simp
    have "P (snd (invoke f (CallbackAdapters (adapters w2)) w2))" for f
      by (rule congr [OF _ _ pw2]) simp_all
    with pw2 m r xNone None show ?thesis
      by (cases y; cases callback) (simp_all add: updateAdapterList_def)
  qed
qed

text \<open>
  The same for a successful enumeration, with one property for the first loop and one for
  the second.
\<close>

lemma updateAdapterList_phases:
  assumes init: "P w0"
    and loop: "\<And>d R w. d \<in> set ds \<Longrightarrow> P w \<Longrightarrow> P (snd (snd (process_adapter d R w)))"
    and trans: "\<And>w. P w \<Longrightarrow> Q w"
    and rem: "\<And>R' wL k a w. process_adapters ds (adapters w0) w0 = (None, R', wL) \<Longrightarrow>
          k \<in> fst ` set R' \<Longrightarrow> Q w \<Longrightarrow> map_of (adapters w) k = Some a \<Longrightarrow>
          Q ((removeAllListeners a Opened w)
               \<lparr>adapters := AList.delete k (adapters w), events := events w @ [Removed a]\<rparr>)"
    and cb: "\<And>f args w. Q w \<Longrightarrow> Q (snd (invoke f args w))"
  shows "Q (snd (updateAdapterList callback None ds w0))"
proof -
  let ?r = "process_adapters ds (adapters w0) w0"
  have l: "P (snd (snd ?r))"
    by (rule process_adapters_invariant [where P = "\<lambda>R. P"]) (use init loop in auto)
  obtain x R' wL where r: "?r = (x, R', wL)" by (cases ?r)
  show ?thesis
  proof (cases x)
    case (Some ex)
    with r l trans show ?thesis by (simp add: updateAdapterList_def)
  next
    case None
    have keys: "set (own_keys R') = fst ` set R'"
      by (auto simp: own_keys_def)
    have removal: "Q (snd (remove_adapters (own_keys R') wL))"
    proof (rule remove_adapters_invariant)
      show "Q wL" using l r trans by simp
    next
      fix k a w
      assume "k \<in> set (own_keys R')" "Q w" "map_of (adapters w) k = Some a"
      with rem [of R' wL k w a] r None keys
      show "Q ((removeAllListeners a Opened w)
               \<lparr>adapters := AList.delete k (adapters w), events := events w @ [Removed a]\<rparr>)"
        by simp
    qed
    obtain y w2 where m: "remove_adapters (own_keys R') wL = (y, w2)"
      by (cases "remove_adapters (own_keys R') wL")
    from removal m have q: "Q w2" by simp
    from cb [OF q] q m r None show ?thesis
      by (cases y; cases callback) (simp_all add: updateAdapterList_def)
  qed
qed

lemma map_of_snoc_Some: "map_of al k = Some a \<Longrightarrow> map_of (al @ [(k', b)]) k = Some a"
  by (simp add: map_add_Some_iff)

lemma process_adapter_keeps_entry:
  assumes "map_of (adapters (w::world)) k = Some a"
  shows "map_of (adapters (snd (snd (process_adapter d R w)))) k = Some a"
proof (cases rule: process_adapter_cases [of d w R])
  case unhandled
  with assms show ?thesis by simp
next
  case unclassified
  with assms show ?thesis by simp
next
  case (present b)
  with assms show ?thesis by simp
next
  case (absent b)
  with assms show ?thesis by (simp add: map_of_snoc_Some)
qed

lemma updateAdapterList_never_replaces:
  assumes "map_of (adapters (w::world)) k = Some a"
  shows "map_of (adapters (snd (updateAdapterList callback e ds w))) k \<in> {None, Some a}"
proof (cases e)
  case (Some x)
  with assms show ?thesis
    by (cases callback) (simp_all add: updateAdapterList_def emit_error)
next
  case None
  have "map_of (adapters (snd (updateAdapterList callback None ds w))) k \<in> {None, Some a}"
  proof (rule updateAdapterList_phases [where P = "\<lambda>w. map_of (adapters w) k = Some a"])
    show "map_of (adapters w) k = Some a" by (rule assms)
  next
    fix d R and w :: world assume "map_of (adapters w) k = Some a"
    then show "map_of (adapters (snd (snd (process_adapter d R w)))) k = Some a"
      by (rule process_adapter_keeps_entry)
  next
    fix k' b and w :: world assume "map_of (adapters w) k \<in> {None, Some a}"
    then show "map_of (adapters ((removeAllListeners b Opened w)
        \<lparr>adapters := AList.delete k' (adapters w), events := events w @ [Removed b]\<rparr>)) k \<in> {None, Some a}"
      by (auto simp: AList.delete_conv)
  qed simp_all
  with None show ?thesis by simp
qed

section \<open>The registry invariant\<close>

lemma fold_live_after_neutral:
  "list_all (\<lambda>e. \<not> is_added e \<and> \<not> is_removed e) new \<Longrightarrow> fold live_after new L = L"
proof (induction new arbitrary: L)
  case Nil
  then show ?case by simp
next
  case (Cons e new)
  then show ?case by (cases e) simp_all
qed

lemma live_append_neutral:
  "list_all (\<lambda>e. \<not> is_added e \<and> \<not> is_removed e) new \<Longrightarrow> live (evs @ new) = live evs"
  by (simp add: live_def fold_live_after_neutral)

lemma call_listeners_events:
  "\<exists>evs. snd (call_listeners ls a ev w) = w\<lparr>events := events w @ evs\<rparr>
         \<and> list_all (\<lambda>e. \<not> is_added e \<and> \<not> is_removed e) evs"
proof (induction ls arbitrary: w)
  case Nil
  have "w = w\<lparr>events := events w @ []\<rparr>" by simp
  then show ?case by (intro exI [of _ "[]"]) simp
next
  case (Cons x ls)
  obtain r ev' l where x: "x = (r, ev', l)" by (cases x)
  show ?case
  proof (cases "r = adapter_ref a \<and> ev' = ev")
    case False
    with Cons [of w] show ?thesis by (auto simp: x)
  next
    case True
    define e1 where "e1 = (case l of EmitAdapterOpened \<Rightarrow> AdapterOpened a | EmitAdapterClosed \<Rightarrow> AdapterClosed a)"
    have r: "run_listener l a w = (None, w\<lparr>events := events w @ [e1]\<rparr>)"
      and n: "\<not> is_added e1 \<and> \<not> is_removed e1"
      by (cases l; simp add: e1_def)+
    let ?w1 = "w\<lparr>events := events w @ [e1]\<rparr>"
    from Cons [of ?w1] obtain e2 where e2: "snd (call_listeners ls a ev ?w1) = ?w1\<lparr>events := events ?w1 @ e2\<rparr>"
      "list_all (\<lambda>e. \<not> is_added e \<and> \<not> is_removed e) e2" by blast
    have "snd (call_listeners (x # ls) a ev w) = w\<lparr>events := events w @ (e1 # e2)\<rparr>"
      using True e2(1) by (simp add: x r)
    moreover have "list_all (\<lambda>e. \<not> is_added e \<and> \<not> is_removed e) (e1 # e2)"
      using n e2(2) by simp
    ultimately show ?thesis by blast
  qed
qed

lemma adapter_emit_events:
  "\<exists>evs. snd (adapter_emit a ev w) = w\<lparr>events := events w @ evs\<rparr>
         \<and> list_all (\<lambda>e. \<not> is_added e \<and> \<not> is_removed e) evs"
  unfolding adapter_emit_def by (rule call_listeners_events)

lemma registry_inv_cong:
  "adapters w' = adapters w \<Longrightarrow> events w' = events w \<Longrightarrow> registry_inv w \<Longrightarrow> registry_inv w'"
  by (simp add: registry_inv_def)

lemma registry_inv_error:
  "registry_inv w \<Longrightarrow> registry_inv (w\<lparr>events := events w @ [Error_event e]\<rparr>)"
  by (simp add: registry_inv_def live_snoc)

lemma registry_inv_added:
  assumes "registry_inv w" and "map_of (adapters w) k = None" and "adapter_instanceId a = Some k"
  shows "registry_inv (w\<lparr>adapters := adapters w @ [(k, a)], events := events w @ [Added a]\<rparr>)"
proof -
  from assms(2) have "k \<notin> fst ` set (adapters w)" by (simp add: map_of_eq_None_iff)
  with assms(1,3) show ?thesis
    by (auto simp: registry_inv_def live_snoc)
qed

lemma registry_inv_removed:
  assumes "registry_inv w" and "map_of (adapters w) k = Some a"
  shows "registry_inv (w\<lparr>adapters := AList.delete k (adapters w), events := events w @ [Removed a]\<rparr>)"
proof -
  from assms(1) have d: "distinct (map fst (adapters w))"
    and i: "list_all (\<lambda>(k, a). adapter_instanceId a = Some k) (adapters w)"
    and l: "live (events w) = snd ` set (adapters w)"
    by (simp_all add: registry_inv_def)
  from assms(2) have m: "(k, a) \<in> set (adapters w)" by (rule map_of_SomeD)
  with i have ia: "adapter_instanceId a = Some k" by (auto simp: list_all_iff)
  have "snd ` set (AList.delete k (adapters w)) = snd ` set (adapters w) - {a}"
  proof (intro set_eqI iffI)
    fix b assume "b \<in> snd ` set (AList.delete k (adapters w))"
    then obtain k' where k': "(k', b) \<in> set (adapters w)" "k' \<noteq> k"
      by (auto simp: AList.delete_eq)
    with i have "adapter_instanceId b = Some k'" by (auto simp: list_all_iff)
    with ia k'(2) have "b \<noteq> a" by auto
    with k'(1) show "b \<in> snd ` set (adapters w) - {a}" by force
  next
    fix b assume "b \<in> snd ` set (adapters w) - {a}"
    then obtain k' where k': "(k', b) \<in> set (adapters w)" "b \<noteq> a" by auto
    with d m have "k' \<noteq> k" by (auto dest: eq_key_imp_eq_value)
    with k'(1) show "b \<in> snd ` set (AList.delete k (adapters w))"
      by (force simp: AList.delete_eq)
  qed
  moreover have "list_all (\<lambda>(k, a). adapter_instanceId a = Some k) (AList.delete k (adapters w))"
    using i by (auto simp: list_all_iff AList.delete_eq)
  ultimately show ?thesis
    using d l by (simp add: registry_inv_def live_snoc AList.distinct_delete)
qed

lemma registry_inv_updateAdapterList:
  "registry_inv w \<Longrightarrow> registry_inv (snd (updateAdapterList callback e ds w))"
  by (rule updateAdapterList_invariant)
     (auto intro: registry_inv_cong registry_inv_error registry_inv_added registry_inv_removed)

lemma registry_inv_step: "registry_inv w \<Longrightarrow> registry_inv (step i w)"
proof (cases i)
  case (Enumerated callback e ds)
  assume "registry_inv w"
  with Enumerated show ?thesis by (simp add: registry_inv_updateAdapterList)
next
  case (AdapterEmits a ev)
  assume r: "registry_inv w"
  from adapter_emit_events [of a ev w] obtain evs where
    "snd (adapter_emit a ev w) = w\<lparr>events := events w @ evs\<rparr>"
    "list_all (\<lambda>e. \<not> is_added e \<and> \<not> is_removed e) evs" by blast
  with r AdapterEmits show ?thesis
    by (simp add: registry_inv_def live_append_neutral)
next
  case ErrorListenerAdded
  assume "registry_inv w"
  with ErrorListenerAdded show ?thesis by (simp add: registry_inv_def)
next
  case ErrorListenerRemoved
  assume "registry_inv w"
  with ErrorListenerRemoved show ?thesis by (simp add: registry_inv_def)
qed

lemma registry_inv_run: "registry_inv (run inputs (init_world p))"
proof -
  have "registry_inv w \<Longrightarrow> registry_inv (fold step inputs w)" for w
    by (induction inputs arbitrary: w) (simp_all add: registry_inv_step)
  moreover have "registry_inv (init_world p)"
    by (simp add: registry_inv_def init_world_def live_def)
  ultimately show ?thesis by (simp add: run_def)
qed

section \<open>Evaluation on the sample devices\<close>

lemmas eval_defs = run_def updateAdapterList_def process_adapter_def getInstanceId_def
  parseAndCreateAdapter_def seggerSerialNumber_exec_def line_terminator_def is_digit_def
  truthy_def ToString_def parseInt_def nat_of_decimal_def digit_value_def
  sdVersion_of_developmentKit_def notSupportedMessage_for_def emit_def
  setUpListenersForAdapterOpenAndClose_def adapter_on_def removeAllListeners_def
  own_keys_def is_array_index_def init_world_def adapter_emit_def remove_adapter_def Let_def
  kit_v2_def kit_v3_def other_port_def nameless_def handle_v2_def

lemma run_kit_v2:
  "run [Enumerated None None [kit_v2]] (init_world ''linux'') =
     \<lparr>platform = ''linux'', adapters = [(''680123456'', handle_v2)], events = [Added handle_v2],
      error_listeners = 0, listeners = [(1, Opened, EmitAdapterOpened), (1, Closed, EmitAdapterClosed)],
      next_ref = 2, invoked = []\<rparr>"
  by (simp add: eval_defs)


lemma key_of_samples:
  "key_of kit_v2 = ''680123456''" "key_of kit_v3 = ''000682123456''"
  by (simp_all add: key_of_def instanceId_of_def eval_defs)

section \<open>The keys of the mapping after a pass\<close>

lemma set_own_keys: "set (own_keys R) = fst ` set R"
  by (auto simp: own_keys_def)

lemma distinct_own_keys: "distinct (map fst R) \<Longrightarrow> distinct (own_keys R)"
  by (auto simp: own_keys_def distinct_map_filter)

lemma process_adapters_removed:
  assumes "process_adapters ds R w = (None, R', w')" and "fst ` set R \<subseteq> fst ` set (adapters w)"
  shows "R' = filter (\<lambda>p. fst p \<notin> key_of ` set ds) R"
  using assms
proof (induction ds arbitrary: R w)
  case Nil
  then show ?case by simp
next
  case (Cons d ds)
  show ?case
  proof (cases rule: process_adapter_cases [of d w R])
    case unhandled
    with Cons.prems(1) show ?thesis by simp
  next
    case unclassified
    with Cons.prems(1) show ?thesis by simp
  next
    case (present a)
    with Cons.prems have "R' = filter (\<lambda>p. fst p \<notin> key_of ` set ds) (AList.delete (key_of d) R)"
      by (intro Cons.IH [of "AList.delete (key_of d) R" "w\<lparr>next_ref := next_ref w + 2\<rparr>"])
         (auto simp: AList.delete_eq)
    then show ?thesis by (auto simp: AList.delete_eq intro: filter_cong)
  next
    case (absent a)
    let ?w1 = "w\<lparr>next_ref := next_ref w + 2,
           adapters := adapters w @ [(key_of d, a)],
           listeners := listeners w @ [(adapter_ref a, Opened, EmitAdapterOpened),
                                       (adapter_ref a, Closed, EmitAdapterClosed)],
           events := events w @ [Added a]\<rparr>"
    from absent(2) have "key_of d \<notin> fst ` set (adapters w)" by (simp add: map_of_eq_None_iff)
    with Cons.prems(2) have n: "key_of d \<notin> fst ` set R" by auto
    from absent Cons.prems have "R' = filter (\<lambda>p. fst p \<notin> key_of ` set ds) R"
      by (intro Cons.IH [of R ?w1]) auto
    moreover have "filter (\<lambda>p. fst p \<notin> key_of ` set ds) R = filter (\<lambda>p. fst p \<notin> key_of ` set (d # ds)) R"
      by (rule filter_cong [OF refl]) (use n in force)
    ultimately show ?thesis by simp
  qed
qed

lemma process_adapters_keys:
  assumes "process_adapters ds R w = (None, R', w')"
  shows "fst ` set (adapters w') = fst ` set (adapters w) \<union> key_of ` set ds"
  using assms
proof (induction ds arbitrary: R w)
  case Nil
  then show ?case by simp
next
  case (Cons d ds)
  show ?case
  proof (cases rule: process_adapter_cases [of d w R])
    case unhandled
    with Cons.prems(1) show ?thesis by simp
  next
    case unclassified
    with Cons.prems(1) show ?thesis by simp
  next
    case (present a)
    from present(2) have "key_of d \<in> fst ` set (adapters w)"
      by (metis map_of_eq_None_iff option.distinct(1))
    moreover from present Cons.prems
    have "fst ` set (adapters w') = fst ` set (adapters (w\<lparr>next_ref := next_ref w + 2\<rparr>)) \<union> key_of ` set ds"
      by (intro Cons.IH [of "AList.delete (key_of d) R"]) simp
    ultimately show ?thesis by auto
  next
    case (absent a)
    let ?w1 = "w\<lparr>next_ref := next_ref w + 2,
           adapters := adapters w @ [(key_of d, a)],
           listeners := listeners w @ [(adapter_ref a, Opened, EmitAdapterOpened),
                                       (adapter_ref a, Closed, EmitAdapterClosed)],
           events := events w @ [Added a]\<rparr>"
    from absent Cons.prems
    have "fst ` set (adapters w') = fst ` set (adapters ?w1) \<union> key_of ` set ds"
      by (intro Cons.IH [of R]) simp
    then show ?thesis by auto
  qed
qed

lemma remove_adapters_complete:
  assumes "distinct ks" and "set ks \<subseteq> fst ` set (adapters w)"
  shows "fst (remove_adapters ks w) = None
     \<and> fst ` set (adapters (snd (remove_adapters ks w))) = fst ` set (adapters w) - set ks"
  using assms
proof (induction ks arbitrary: w)
  case Nil
  then show ?case by simp
next
  case (Cons k ks)
  from Cons.prems(2) obtain a where a: "map_of (adapters w) k = Some a"
    by (cases "map_of (adapters w) k") (auto simp: map_of_eq_None_iff)
  let ?w1 = "(removeAllListeners a Opened w)
      \<lparr>adapters := AList.delete k (adapters w), events := events w @ [Removed a]\<rparr>"
  have k1: "fst ` set (adapters ?w1) = fst ` set (adapters w) - {k}"
    by (auto simp: AList.delete_eq)
  with Cons.prems have "set ks \<subseteq> fst ` set (adapters ?w1)" by auto
  with Cons.IH [of ?w1] Cons.prems(1) k1 a show ?case by (auto simp: remove_adapter_eq)
qed

lemma map_of_Some_key: "map_of al k = Some a \<Longrightarrow> k \<in> fst ` set al"
  by (force dest: map_of_SomeD)

lemma process_adapters_keys_mono:
  "fst ` set (adapters w) \<subseteq> fst ` set (adapters (snd (snd (process_adapters ds R w))))"
proof (rule process_adapters_invariant [where P = "\<lambda>R w'. fst ` set (adapters w) \<subseteq> fst ` set (adapters w')"])
  fix d R and w' :: world
  assume "fst ` set (adapters w) \<subseteq> fst ` set (adapters w')"
  then show "fst ` set (adapters w) \<subseteq> fst ` set (adapters (snd (snd (process_adapter d R w'))))"
    by (cases rule: process_adapter_cases [of d w' R]) auto
qed simp

lemma process_adapters_covers:
  "list_all (\<lambda>d. key_of d \<in> fst ` set (adapters (snd (snd (process_adapters ds R w)))))
     (takeWhile classified ds)"
proof (induction ds arbitrary: R w)
  case Nil
  then show ?case by simp
next
  case (Cons d ds)
  show ?case
  proof (cases rule: process_adapter_cases [of d w R])
    case unhandled
    then show ?thesis by simp
  next
    case unclassified
    then show ?thesis by simp
  next
    case (present a)
    let ?w1 = "w\<lparr>next_ref := next_ref w + 2\<rparr>"
    let ?R1 = "AList.delete (key_of d) R"
    from present(2) have "key_of d \<in> fst ` set (adapters ?w1)"
      by (simp add: map_of_Some_key)
    with process_adapters_keys_mono [of ?w1 ds ?R1]
    have "key_of d \<in> fst ` set (adapters (snd (snd (process_adapters ds ?R1 ?w1))))" by blast
    with present Cons.IH [of ?R1 ?w1] show ?thesis by simp
  next
    case (absent a)
    let ?w1 = "w\<lparr>next_ref := next_ref w + 2,
           adapters := adapters w @ [(key_of d, a)],
           listeners := listeners w @ [(adapter_ref a, Opened, EmitAdapterOpened),
                                       (adapter_ref a, Closed, EmitAdapterClosed)],
           events := events w @ [Added a]\<rparr>"
    have "key_of d \<in> fst ` set (adapters ?w1)" by simp
    with process_adapters_keys_mono [of ?w1 ds R]
    have "key_of d \<in> fst ` set (adapters (snd (snd (process_adapters ds R ?w1))))" by blast
    with absent Cons.IH [of R ?w1] show ?thesis by simp
  qed
qed

lemma process_adapters_known:
  assumes "list_all (\<lambda>d. key_of d \<in> fst ` set (adapters w)) (takeWhile classified ds)"
  shows "\<exists>x R' n new. process_adapters ds R w = (x, R', w\<lparr>next_ref := n, events := events w @ new\<rparr>)
           \<and> (x = None) = list_all classified ds
           \<and> list_all (\<lambda>e. \<not> is_added e \<and> \<not> is_removed e) new"
  using assms
proof (induction ds arbitrary: R w)
  case Nil
  have "w = w\<lparr>next_ref := next_ref w, events := events w @ []\<rparr>" by simp
  then have "process_adapters [] R w = (None, R, w\<lparr>next_ref := next_ref w, events := events w @ []\<rparr>)
      \<and> (None = (None :: exn option)) = list_all classified []
      \<and> list_all (\<lambda>e. \<not> is_added e \<and> \<not> is_removed e) []" by simp
  then show ?case by blast
next
  case (Cons d ds)
  show ?case
  proof (cases rule: process_adapter_cases [of d w R])
    case unhandled
    have "w = w\<lparr>next_ref := next_ref w, events := events w @ []\<rparr>" by simp
    with unhandled have "process_adapters (d # ds) R w =
        (Some unhandled_missing_instanceId, R, w\<lparr>next_ref := next_ref w, events := events w @ []\<rparr>)
        \<and> (Some unhandled_missing_instanceId = None) = list_all classified (d # ds)
        \<and> list_all (\<lambda>e. \<not> is_added e \<and> \<not> is_removed e) []"
      by simp
    then show ?thesis by blast
  next
    case unclassified
    let ?R1 = "if map_of (adapters w) (key_of d) \<noteq> None then AList.delete (key_of d) R else R"
    let ?new = "if instanceId_of d = None then [missing_instanceId, missing_instanceId] else []"
    have "(if instanceId_of d = None
           then w\<lparr>events := events w @ [missing_instanceId, missing_instanceId]\<rparr> else w)
        = w\<lparr>next_ref := next_ref w, events := events w @ ?new\<rparr>"
      by simp
    with unclassified have "process_adapters (d # ds) R w =
        (Some unknown_driver_version, ?R1, w\<lparr>next_ref := next_ref w, events := events w @ ?new\<rparr>)
        \<and> (Some unknown_driver_version = None) = list_all classified (d # ds)
        \<and> list_all (\<lambda>e. \<not> is_added e \<and> \<not> is_removed e) ?new"
      by (simp add: missing_instanceId_def)
    then show ?thesis by blast
  next
    case (present a)
    let ?w1 = "w\<lparr>next_ref := next_ref w + 2\<rparr>"
    from Cons.prems present(1)
    have "list_all (\<lambda>d. key_of d \<in> fst ` set (adapters ?w1)) (takeWhile classified ds)" by simp
    from Cons.IH [OF this, of "AList.delete (key_of d) R"] obtain x R' n new where
      "process_adapters ds (AList.delete (key_of d) R) ?w1 =
         (x, R', ?w1\<lparr>next_ref := n, events := events ?w1 @ new\<rparr>)"
      "(x = None) = list_all classified ds"
      "list_all (\<lambda>e. \<not> is_added e \<and> \<not> is_removed e) new" by blast
    with present have "process_adapters (d # ds) R w =
         (x, R', w\<lparr>next_ref := n, events := events w @ new\<rparr>)
        \<and> (x = None) = list_all classified (d # ds)
        \<and> list_all (\<lambda>e. \<not> is_added e \<and> \<not> is_removed e) new" by simp
    then show ?thesis by blast
  next
    case (absent a)
    from Cons.prems absent(1) have "key_of d \<in> fst ` set (adapters w)" by simp
    with absent(2) show ?thesis by (simp add: map_of_eq_None_iff)
  qed
qed

section \<open>A pass that meets a device it cannot classify\<close>








section \<open>One handle per instance id\<close>

text \<open>
  C2. At every moment of the registry's life, that is after any sequence of enumeration
  results, adapter events and registrations and removals of \<^verbatim>\<open>error\<close> listeners, the
  mapping has one entry per instance id, the live handles (announced by \<^verbatim>\<open>added\<close> and
  not yet by \<^verbatim>\<open>removed\<close>) are exactly the handles of the mapping, two live handles with
  the same instance id are one and the same, and a pass never puts another handle under a
  key that has one: the entry stays or is deleted.
\<close>

theorem C2_one_live_handle_per_id:
  "distinct (map fst (adapters (run inputs (init_world p))))
   \<and> live (events (run inputs (init_world p))) = snd ` set (adapters (run inputs (init_world p)))
   \<and> (a \<in> live (events (run inputs (init_world p))) \<and> b \<in> live (events (run inputs (init_world p)))
        \<and> adapter_instanceId a = adapter_instanceId b \<longrightarrow> a = b)
   \<and> (map_of (adapters (run inputs (init_world p))) k = Some a \<longrightarrow>
        map_of (adapters (snd (updateAdapterList callback e enumerated (run inputs (init_world p))))) k
          \<in> {None, Some a})"
proof -
  let ?w = "run inputs (init_world p)"
  have inv: "registry_inv ?w" by (rule registry_inv_run)
  then have d: "distinct (map fst (adapters ?w))"
    and i: "list_all (\<lambda>(k, a). adapter_instanceId a = Some k) (adapters ?w)"
    and l: "live (events ?w) = snd ` set (adapters ?w)"
    by (simp_all add: registry_inv_def)
  have "a = b" if "a \<in> live (events ?w)" "b \<in> live (events ?w)"
    "adapter_instanceId a = adapter_instanceId b"
  proof -
    from that l obtain ka kb where k: "(ka, a) \<in> set (adapters ?w)" "(kb, b) \<in> set (adapters ?w)"
      by auto
    with i have "adapter_instanceId a = Some ka" "adapter_instanceId b = Some kb"
      by (auto simp: list_all_iff)
    with that(3) have "ka = kb" by simp
    with d k show ?thesis by (auto dest: eq_key_imp_eq_value)
  qed
  moreover have "map_of (adapters (snd (updateAdapterList callback e enumerated ?w))) k \<in> {None, Some a}"
    if "map_of (adapters ?w) k = Some a"
    using that by (rule updateAdapterList_never_replaces)
  ultimately show ?thesis
    using d l by blast
qed

theorem C2_one_live_handle_per_id_witness:
  "handle_v2 \<in> live (events (run [Enumerated None None [kit_v2]] (init_world ''linux'')))
   \<and> map_of (adapters (run [Enumerated None None [kit_v2]] (init_world ''linux''))) ''680123456''
       = Some handle_v2
   \<and> map_of (adapters (snd (updateAdapterList None None [kit_v2, kit_v3]
        (run [Enumerated None None [kit_v2]] (init_world ''linux'')))))  ''680123456''
       \<in> {None, Some handle_v2}"
proof -
  let ?w = "run [Enumerated None None [kit_v2]] (init_world ''linux'')"
  have l: "handle_v2 \<in> live (events ?w)"
    by (simp add: run_kit_v2 live_def)
  have m: "map_of (adapters ?w) ''680123456'' = Some handle_v2"
    by (simp add: run_kit_v2)
  from C2_one_live_handle_per_id [of "[Enumerated None None [kit_v2]]" "''linux''" handle_v2 handle_v2
      "''680123456''" None None "[kit_v2, kit_v3]"] l m
  show ?thesis by simp
qed

section \<open>Reconciling twice\<close>

lemma updateAdapterList_thrown:
  "\<not> list_all classified ds \<Longrightarrow>
     updateAdapterList callback None ds w =
       (fst (process_adapters ds (adapters w) w), snd (snd (process_adapters ds (adapters w) w)))"
  using process_adapters_outcome [of ds "adapters w" w]
  by (cases "process_adapters ds (adapters w) w") (auto simp: updateAdapterList_def)

lemma updateAdapterList_complete:
  assumes "distinct (map fst (adapters w))" and "list_all classified ds"
  shows "fst ` set (adapters (snd (updateAdapterList callback None ds w))) = key_of ` set ds"
proof -
  obtain x R' wL where r: "process_adapters ds (adapters w) w = (x, R', wL)"
    by (cases "process_adapters ds (adapters w) w")
  with process_adapters_outcome [of ds "adapters w" w] assms(2) have x: "x = None" by simp
  from r x have R': "R' = filter (\<lambda>p. fst p \<notin> key_of ` set ds) (adapters w)"
    by (intro process_adapters_removed [of ds "adapters w" w R' wL]) simp_all
  from r x have kL: "fst ` set (adapters wL) = fst ` set (adapters w) \<union> key_of ` set ds"
    by (intro process_adapters_keys [of ds "adapters w" w R' wL]) simp
  have "distinct (map fst R')" using assms(1) by (simp add: R' distinct_map_filter)
  then have dk: "distinct (own_keys R')" by (rule distinct_own_keys)
  have sk: "set (own_keys R') = {k \<in> fst ` set (adapters w). k \<notin> key_of ` set ds}"
    by (auto simp: set_own_keys R')
  with kL have "set (own_keys R') \<subseteq> fst ` set (adapters wL)" by auto
  from remove_adapters_complete [OF dk this]
  have rm: "fst (remove_adapters (own_keys R') wL) = None"
    "fst ` set (adapters (snd (remove_adapters (own_keys R') wL))) = fst ` set (adapters wL) - set (own_keys R')"
    by simp_all
  obtain w2 where w2: "remove_adapters (own_keys R') wL = (None, w2)"
    using rm(1) by (cases "remove_adapters (own_keys R') wL") simp
  with rm(2) kL sk have "fst ` set (adapters w2) = key_of ` set ds" by auto
  with r x w2 show ?thesis
    by (cases callback) (simp_all add: updateAdapterList_def)
qed

lemma updateAdapterList_steady:
  assumes known: "list_all (\<lambda>d. key_of d \<in> fst ` set (adapters w)) (takeWhile classified ds)"
    and exact: "list_all classified ds \<Longrightarrow> fst ` set (adapters w) \<subseteq> key_of ` set ds"
  shows "adapters (snd (updateAdapterList callback None ds w)) = adapters w
     \<and> (\<exists>new. events (snd (updateAdapterList callback None ds w)) = events w @ new
           \<and> list_all (\<lambda>e. \<not> is_added e \<and> \<not> is_removed e) new)"
proof -
  from process_adapters_known [OF known, of "adapters w"] obtain x R' n new where
    r: "process_adapters ds (adapters w) w = (x, R', w\<lparr>next_ref := n, events := events w @ new\<rparr>)"
    and x: "(x = None) = list_all classified ds"
    and new: "list_all (\<lambda>e. \<not> is_added e \<and> \<not> is_removed e) new" by blast
  show ?thesis
  proof (cases "list_all classified ds")
    case False
    with r new show ?thesis by (auto simp: updateAdapterList_thrown)
  next
    case True
    with x have xn: "x = None" by simp
    with r have "R' = filter (\<lambda>p. fst p \<notin> key_of ` set ds) (adapters w)"
      by (intro process_adapters_removed [of ds "adapters w" w R']) simp_all
    with exact [OF True] have "R' = []" by (auto simp: filter_empty_conv)
    with r xn new show ?thesis
      by (cases callback) (auto simp: updateAdapterList_def own_keys_def)
  qed
qed

lemma updateAdapterList_twice:
  assumes "distinct (map fst (adapters w))"
  shows "adapters (snd (updateAdapterList callback' None ds (snd (updateAdapterList callback None ds w))))
       = adapters (snd (updateAdapterList callback None ds w))
     \<and> (\<exists>new. events (snd (updateAdapterList callback' None ds (snd (updateAdapterList callback None ds w))))
              = events (snd (updateAdapterList callback None ds w)) @ new
           \<and> list_all (\<lambda>e. \<not> is_added e \<and> \<not> is_removed e) new)"
proof (rule updateAdapterList_steady)
  let ?w1 = "snd (updateAdapterList callback None ds w)"
  show "list_all (\<lambda>d. key_of d \<in> fst ` set (adapters ?w1)) (takeWhile classified ds)"
  proof (cases "list_all classified ds")
    case True
    from updateAdapterList_complete [OF assms True]
    have "fst ` set (adapters ?w1) = key_of ` set ds" .
    then show ?thesis by (auto simp: list_all_iff dest: set_takeWhileD)
  next
    case False
    then show ?thesis
      using process_adapters_covers [of ds "adapters w" w] by (simp add: updateAdapterList_thrown)
  qed
  show "fst ` set (adapters ?w1) \<subseteq> key_of ` set ds" if "list_all classified ds"
    using updateAdapterList_complete [OF assms that] by simp
qed

text \<open>
  C3. At any moment of the registry's life, when a pass over an enumeration result is
  followed at once by a second pass over the same result, the second pass leaves the
  adapter mapping as the first left it (so its keys too) and emits neither an \<^verbatim>\<open>added\<close> nor
  a \<^verbatim>\<open>removed\<close> event. This holds whether or not the passes end with an exception.
\<close>

theorem C3_second_pass_is_silent:
  "adapters (snd (updateAdapterList callback' None enumerated
       (snd (updateAdapterList callback None enumerated (run inputs (init_world p))))))
     = adapters (snd (updateAdapterList callback None enumerated (run inputs (init_world p))))
   \<and> (\<exists>new. events (snd (updateAdapterList callback' None enumerated
                (snd (updateAdapterList callback None enumerated (run inputs (init_world p))))))
              = events (snd (updateAdapterList callback None enumerated (run inputs (init_world p)))) @ new
            \<and> filter is_added new = [] \<and> filter is_removed new = [])"
proof -
  have "distinct (map fst (adapters (run inputs (init_world p))))"
    using registry_inv_run [of inputs p] by (simp add: registry_inv_def)
  from updateAdapterList_twice [OF this, of callback' enumerated callback]
  show ?thesis by (auto simp: filter_empty_conv list_all_iff)
qed

section \<open>Devices that cannot be classified\<close>





section \<open>Listeners of a removed handle\<close>

text \<open>
  The second loop removes the \<^verbatim>\<open>opened\<close> listeners of a handle only: whatever is removed,
  the \<^verbatim>\<open>closed\<close> listeners of all handles are as they were.
\<close>

lemma remove_adapters_keeps_closed_listeners:
  "filter (\<lambda>(r, ev, l). ev = Closed) (listeners (snd (remove_adapters ks w)))
     = filter (\<lambda>(r, ev, l). ev = Closed) (listeners w)"
proof (rule remove_adapters_invariant
    [where P = "\<lambda>w'. filter (\<lambda>(r, ev, l). ev = Closed) (listeners w')
                     = filter (\<lambda>(r, ev, l). ev = Closed) (listeners w)"])
  fix k and a :: adapter and w' :: world
  assume "filter (\<lambda>(r, ev, l). ev = Closed) (listeners w')
      = filter (\<lambda>(r, ev, l). ev = Closed) (listeners w)"
  moreover have "filter (\<lambda>(r, ev, l). ev = Closed)
      (filter (\<lambda>(r, ev', l). \<not> (r = adapter_ref a \<and> ev' = Opened)) (listeners w'))
      = filter (\<lambda>(r, ev, l). ev = Closed) (listeners w')"
    by (auto intro: filter_cong)
  ultimately show "filter (\<lambda>(r, ev, l). ev = Closed)
      (listeners ((removeAllListeners a Opened w')
         \<lparr>adapters := AList.delete k (adapters w'), events := events w' @ [Removed a]\<rparr>))
      = filter (\<lambda>(r, ev, l). ev = Closed) (listeners w)"
    by (simp add: removeAllListeners_def)
qed simp

text \<open>
  C5. The claim does not hold of the code: a development kit is enumerated and then
  vanishes, so its handle is removed; the handle's \<^verbatim>\<open>opened\<close> event no longer reaches the
  factory's stream, but its \<^verbatim>\<open>closed\<close> event is still re-emitted as \<^verbatim>\<open>adapterClosed\<close>,
  because the \<^verbatim>\<open>closed\<close> listener stays registered on the removed handle.
\<close>

theorem C5_closed_listener_survives_removal:
  "events (run [Enumerated None None [kit_v2], Enumerated None None [],
                AdapterEmits handle_v2 Opened, AdapterEmits handle_v2 Closed] (init_world ''linux''))
     = [Added handle_v2, Removed handle_v2, AdapterClosed handle_v2]
   \<and> listeners (run [Enumerated None None [kit_v2], Enumerated None None []] (init_world ''linux''))
     = [(adapter_ref handle_v2, Closed, EmitAdapterClosed)]"
  by (simp add: eval_defs)

section \<open>A failed enumeration\<close>

lemma updateAdapterList_error_unhandled:
  assumes "error_listeners w = 0"
  shows "updateAdapterList callback (Some e) enumerated w = (Some (UnhandledError (DriverError e)), w)"
  using assms by (simp add: updateAdapterList_def emit_def)

lemma updateAdapterList_error_handled:
  assumes "0 < error_listeners w"
  shows "updateAdapterList callback (Some e) enumerated w =
           (case callback of
              None \<Rightarrow> (None, w\<lparr>events := events w @ [Error_event (DriverError e)]\<rparr>)
            | Some f \<Rightarrow> invoke f (CallbackError e) (w\<lparr>events := events w @ [Error_event (DriverError e)]\<rparr>))"
  using assms by (simp add: updateAdapterList_def emit_def)

text \<open>
  C6 (as amended). When the driver reports an error, nothing happens to the adapter
  mapping, the listeners and the allocated objects, whoever started the cycle. When
  somebody listens for \<^verbatim>\<open>error\<close> on the factory, the \<^verbatim>\<open>error\<close> event is emitted with the
  driver's error, and a callback that is a function is then called with the error alone,
  also when the cycle was started by \<^verbatim>\<open>getAdapters\<close>; \<^verbatim>\<open>getAdapters\<close> without a callback
  ends with a type error after the event. When nobody listens for \<^verbatim>\<open>error\<close>, the emitter
  throws, the cycle ends with that exception, no event is delivered and no callback is
  called.
\<close>

theorem C6_enumeration_error:
  "(0 < error_listeners w \<longrightarrow>
      updateAdapterList None (Some e) enumerated w
        = (None, w\<lparr>events := events w @ [Error_event (DriverError e)]\<rparr>)
    \<and> updateAdapterList (Some (UserFunction f)) (Some e) enumerated w
        = (None, w\<lparr>events := events w @ [Error_event (DriverError e)],
                    invoked := invoked w @ [(f, CallbackError e)]\<rparr>)
    \<and> getAdapters (Some f) (Some e) enumerated w
        = (None, w\<lparr>events := events w @ [Error_event (DriverError e)],
                    invoked := invoked w @ [(f, CallbackError e)]\<rparr>)
    \<and> getAdapters None (Some e) enumerated w
        = (Some (TypeError ''callback is not a function''),
           w\<lparr>events := events w @ [Error_event (DriverError e)]\<rparr>))
   \<and> (error_listeners w = 0 \<longrightarrow>
        updateAdapterList callback (Some e) enumerated w = (Some (UnhandledError (DriverError e)), w)
      \<and> getAdapters g (Some e) enumerated w = (Some (UnhandledError (DriverError e)), w))
   \<and> adapters (snd (updateAdapterList callback (Some e) enumerated w)) = adapters w
   \<and> listeners (snd (updateAdapterList callback (Some e) enumerated w)) = listeners w
   \<and> next_ref (snd (updateAdapterList callback (Some e) enumerated w)) = next_ref w"
proof (intro conjI impI)
  assume "0 < error_listeners w"
  note h = updateAdapterList_error_handled [OF this, of _ e enumerated]
  show "updateAdapterList None (Some e) enumerated w
        = (None, w\<lparr>events := events w @ [Error_event (DriverError e)]\<rparr>)"
    by (simp add: h)
  show "updateAdapterList (Some (UserFunction f)) (Some e) enumerated w
        = (None, w\<lparr>events := events w @ [Error_event (DriverError e)],
                    invoked := invoked w @ [(f, CallbackError e)]\<rparr>)"
    by (simp add: h)
  show "getAdapters (Some f) (Some e) enumerated w
        = (None, w\<lparr>events := events w @ [Error_event (DriverError e)],
                    invoked := invoked w @ [(f, CallbackError e)]\<rparr>)"
    by (simp add: getAdapters_def h)
  show "getAdapters None (Some e) enumerated w
        = (Some (TypeError ''callback is not a function''),
           w\<lparr>events := events w @ [Error_event (DriverError e)]\<rparr>)"
    by (simp add: getAdapters_def h)
next
  assume "error_listeners w = 0"
  note u = updateAdapterList_error_unhandled [OF this]
  show "updateAdapterList callback (Some e) enumerated w = (Some (UnhandledError (DriverError e)), w)"
    by (rule u)
  show "getAdapters g (Some e) enumerated w = (Some (UnhandledError (DriverError e)), w)"
    unfolding getAdapters_def by (rule u)
next
  have "adapters (snd (updateAdapterList callback (Some e) enumerated w)) = adapters w
      \<and> listeners (snd (updateAdapterList callback (Some e) enumerated w)) = listeners w
      \<and> next_ref (snd (updateAdapterList callback (Some e) enumerated w)) = next_ref w"
  proof (cases "error_listeners w = 0")
    case True
    then show ?thesis by (simp add: updateAdapterList_error_unhandled)
  next
    case False
    then have "0 < error_listeners w" by simp
    then show ?thesis
      by (cases callback) (simp_all add: updateAdapterList_error_handled)
  qed
  then show "adapters (snd (updateAdapterList callback (Some e) enumerated w)) = adapters w"
    and "listeners (snd (updateAdapterList callback (Some e) enumerated w)) = listeners w"
    and "next_ref (snd (updateAdapterList callback (Some e) enumerated w)) = next_ref w"
    by simp_all
qed

theorem C6_enumeration_error_witness:
  "0 < error_listeners (run [ErrorListenerAdded] (init_world ''linux''))
   \<and> error_listeners (init_world ''linux'') = 0
   \<and> getAdapters (Some 0) (Some ''timeout'') [kit_v2] (run [ErrorListenerAdded] (init_world ''linux''))
       = (None, (init_world ''linux'')\<lparr>events := [Error_event (DriverError ''timeout'')],
                  error_listeners := 1, invoked := [(0, CallbackError ''timeout'')]\<rparr>)
   \<and> getAdapters (Some 0) (Some ''timeout'') [kit_v2] (init_world ''linux'')
       = (Some (UnhandledError (DriverError ''timeout'')), init_world ''linux'')"
proof -
  have a: "0 < error_listeners (run [ErrorListenerAdded] (init_world ''linux''))"
    and b: "error_listeners (init_world ''linux'') = 0"
    by (simp_all add: run_def init_world_def)
  from C6_enumeration_error [of "run [ErrorListenerAdded] (init_world ''linux'')" "''timeout''" "[kit_v2]" 0] a
  have c: "getAdapters (Some 0) (Some ''timeout'') [kit_v2] (run [ErrorListenerAdded] (init_world ''linux''))
       = (None, (init_world ''linux'')\<lparr>events := [Error_event (DriverError ''timeout'')],
                  error_listeners := 1, invoked := [(0, CallbackError ''timeout'')]\<rparr>)"
    by (simp add: run_def init_world_def)
  from C6_enumeration_error [of "init_world ''linux''" "''timeout''" "[kit_v2]" 0 None "Some 0"] b
  have d: "getAdapters (Some 0) (Some ''timeout'') [kit_v2] (init_world ''linux'')
       = (Some (UnhandledError (DriverError ''timeout'')), init_world ''linux'')"
    by simp
  show ?thesis by (intro conjI a b c d)
qed

text \<open>
  The claim as stated fails on a factory nobody listens for \<^verbatim>\<open>error\<close> on, which is the
  factory as \<^verbatim>\<open>getInstance\<close> returns it: the cycle ends with the emitter's exception, no
  event is delivered, and the callback that started the cycle is not called.
\<close>

theorem C6_counterexample:
  "getAdapters (Some 0) (Some ''timeout'') [kit_v2] (init_world ''linux'')
     = (Some (UnhandledError (DriverError ''timeout'')), init_world ''linux'')
   \<and> events (snd (getAdapters (Some 0) (Some ''timeout'') [kit_v2] (init_world ''linux''))) = []
   \<and> invoked (snd (getAdapters (Some 0) (Some ''timeout'') [kit_v2] (init_world ''linux''))) = []
   \<and> updateAdapterList (Some (UserFunction 0)) (Some ''timeout'') [kit_v2] (init_world ''linux'')
     = (Some (UnhandledError (DriverError ''timeout'')), init_world ''linux'')"
  by (simp add: getAdapters_def updateAdapterList_def emit_def init_world_def)

section \<open>Devices that stay\<close>

text \<open>
  C7 (as amended). When a device of the enumeration result has its key in the mapping at
  the start of a pass, then after the pass, however it ends, the mapping holds the very
  same handle under that key, and no \<^verbatim>\<open>added\<close> event of the pass carries a handle with
  that instance id. (That no handle is constructed for the device does not hold: see the
  counterexample below.)
\<close>

theorem C7_surviving_entry_kept:
  assumes "map_of (adapters w) (key_of d) = Some a" and "d \<in> set enumerated"
  shows "map_of (adapters (snd (updateAdapterList callback None enumerated w))) (key_of d) = Some a
     \<and> (\<exists>new. events (snd (updateAdapterList callback None enumerated w)) = events w @ new
           \<and> (\<forall>b. Added b \<in> set new \<longrightarrow> adapter_instanceId b \<noteq> Some (key_of d)))"
proof (rule updateAdapterList_phases
    [where P = "\<lambda>w'. map_of (adapters w') (key_of d) = Some a
       \<and> (\<exists>new. events w' = events w @ new
             \<and> (\<forall>b. Added b \<in> set new \<longrightarrow> adapter_instanceId b \<noteq> Some (key_of d)))"])
  show "map_of (adapters w) (key_of d) = Some a
     \<and> (\<exists>new. events w = events w @ new
           \<and> (\<forall>b. Added b \<in> set new \<longrightarrow> adapter_instanceId b \<noteq> Some (key_of d)))"
    using assms(1) by simp
next
  fix d' R and w' :: world
  assume p: "map_of (adapters w') (key_of d) = Some a
     \<and> (\<exists>new. events w' = events w @ new
           \<and> (\<forall>b. Added b \<in> set new \<longrightarrow> adapter_instanceId b \<noteq> Some (key_of d)))"
  then obtain new where new: "events w' = events w @ new"
    "\<forall>b. Added b \<in> set new \<longrightarrow> adapter_instanceId b \<noteq> Some (key_of d)" by blast
  let ?w = "snd (snd (process_adapter d' R w'))"
  have m: "map_of (adapters ?w) (key_of d) = Some a"
    using p by (simp add: process_adapter_keeps_entry)
  have "\<exists>new. events ?w = events w @ new
       \<and> (\<forall>b. Added b \<in> set new \<longrightarrow> adapter_instanceId b \<noteq> Some (key_of d))"
  proof (cases rule: process_adapter_cases [of d' w' R])
    case unhandled
    with new show ?thesis by auto
  next
    case unclassified
    let ?e = "if instanceId_of d' = None then [missing_instanceId, missing_instanceId] else []"
    have "events ?w = events w @ (new @ ?e)"
      by (simp add: unclassified(3) new(1))
    moreover have "\<forall>b. Added b \<in> set (new @ ?e) \<longrightarrow> adapter_instanceId b \<noteq> Some (key_of d)"
      using new(2) by (simp add: missing_instanceId_def)
    ultimately show ?thesis by blast
  next
    case (present c)
    with new show ?thesis by auto
  next
    case (absent c)
    from absent(2) p have "key_of d' \<noteq> key_of d" by auto
    with absent(3) have "adapter_instanceId c \<noteq> Some (key_of d)" by simp
    with new(2) have "\<forall>b. Added b \<in> set (new @ [Added c]) \<longrightarrow> adapter_instanceId b \<noteq> Some (key_of d)"
      by auto
    moreover have "events ?w = events w @ (new @ [Added c])"
      by (simp add: absent(5) new(1))
    ultimately show ?thesis by blast
  qed
  with m show "map_of (adapters ?w) (key_of d) = Some a
     \<and> (\<exists>new. events ?w = events w @ new
           \<and> (\<forall>b. Added b \<in> set new \<longrightarrow> adapter_instanceId b \<noteq> Some (key_of d)))" by simp
next
  fix R' wL k c and w' :: world
  assume r: "process_adapters enumerated (adapters w) w = (None, R', wL)" and k: "k \<in> fst ` set R'"
    and q: "map_of (adapters w') (key_of d) = Some a
     \<and> (\<exists>new. events w' = events w @ new
           \<and> (\<forall>b. Added b \<in> set new \<longrightarrow> adapter_instanceId b \<noteq> Some (key_of d)))"
  from r have "R' = filter (\<lambda>p. fst p \<notin> key_of ` set enumerated) (adapters w)"
    by (rule process_adapters_removed) simp
  with k assms(2) have ne: "k \<noteq> key_of d" by auto
  from q obtain new where new: "events w' = events w @ new"
    "\<forall>b. Added b \<in> set new \<longrightarrow> adapter_instanceId b \<noteq> Some (key_of d)" by blast
  let ?w = "(removeAllListeners c Opened w')
      \<lparr>adapters := AList.delete k (adapters w'), events := events w' @ [Removed c]\<rparr>"
  have "map_of (adapters ?w) (key_of d) = Some a"
    using q ne by (simp add: AList.delete_conv)
  moreover have "events ?w = events w @ (new @ [Removed c])"
    by (simp add: new(1))
  moreover have "\<forall>b. Added b \<in> set (new @ [Removed c]) \<longrightarrow> adapter_instanceId b \<noteq> Some (key_of d)"
    using new(2) by simp
  ultimately show "map_of (adapters ?w) (key_of d) = Some a
     \<and> (\<exists>new. events ?w = events w @ new
           \<and> (\<forall>b. Added b \<in> set new \<longrightarrow> adapter_instanceId b \<noteq> Some (key_of d)))" by blast
qed simp_all

text \<open>
  The claim as stated fails: with \<open>kit_v2\<close> in the mapping, a pass over \<open>kit_v2\<close> calls
  \<^verbatim>\<open>_parseAndCreateAdapter\<close> before it looks the key up, which constructs a second adapter
  object for the same instance id (and an object of the driver), dropped afterwards: the
  pass allocates two objects.
\<close>

theorem C7_counterexample:
  "map_of (adapters (run [Enumerated None None [kit_v2]] (init_world ''linux''))) (key_of kit_v2)
     = Some handle_v2
   \<and> fst (parseAndCreateAdapter kit_v2 (run [Enumerated None None [kit_v2]] (init_world ''linux'')))
     = Inr (handle_v2\<lparr>adapter_ref := 3, adapter_addOnAdapter := 2\<rparr>)
   \<and> next_ref (run [Enumerated None None [kit_v2]] (init_world ''linux'')) = 2
   \<and> next_ref (snd (updateAdapterList None None [kit_v2]
        (run [Enumerated None None [kit_v2]] (init_world ''linux'')))) = 4"
  by (simp add: run_kit_v2 key_of_def instanceId_of_def) (simp add: eval_defs)

theorem C7_surviving_entry_kept_witness:
  "map_of (adapters (snd (updateAdapterList None None [kit_v3, kit_v2]
      (run [Enumerated None None [kit_v2]] (init_world ''linux''))))) ''680123456'' = Some handle_v2
   \<and> (\<exists>new. events (snd (updateAdapterList None None [kit_v3, kit_v2]
                (run [Enumerated None None [kit_v2]] (init_world ''linux''))))
              = [Added handle_v2] @ new
           \<and> (\<forall>b. Added b \<in> set new \<longrightarrow> adapter_instanceId b \<noteq> Some ''680123456''))"
proof -
  let ?w = "run [Enumerated None None [kit_v2]] (init_world ''linux'')"
  have k: "key_of kit_v2 = ''680123456''"
    by (simp add: key_of_def instanceId_of_def kit_v2_def truthy_def ToString_def)
  have m: "map_of (adapters ?w) (key_of kit_v2) = Some handle_v2"
    by (simp add: run_kit_v2 k)
  have e: "events ?w = [Added handle_v2]" by (simp add: run_kit_v2)
  from C7_surviving_entry_kept [OF m, of "[kit_v3, kit_v2]" None]
  show ?thesis by (simp add: k e)
qed

section \<open>A device without instance id\<close>





section \<open>The singleton gate\<close>

lemma getInstance_result:
  "getInstance d c =
     (Inr (case singleton_slot c of Some f \<Rightarrow> f | None \<Rightarrow> length (instances c)),
      case singleton_slot c of
        Some f \<Rightarrow> c
      | None \<Rightarrow> c\<lparr>instances := instances c @ [case d of None \<Rightarrow> DefaultDrivers | Some x \<Rightarrow> x],
                  singleton_slot := Some (length (instances c))\<rparr>)"
  by (simp add: getInstance_def AdapterFactory_constructor_def Let_def split: option.splits)

lemma getInstances_filled:
  "singleton_slot c = Some f \<Longrightarrow> getInstances ds c = (replicate (length ds) (Inr f), c)"
  by (induction ds) (simp_all add: getInstance_result)

lemma getInstances_empty:
  assumes "singleton_slot c = None"
  shows "getInstances (d # ds) c =
           (replicate (Suc (length ds)) (Inr (length (instances c))),
            c\<lparr>instances := instances c @ [case d of None \<Rightarrow> DefaultDrivers | Some x \<Rightarrow> x],
              singleton_slot := Some (length (instances c))\<rparr>)"
proof -
  let ?c' = "c\<lparr>instances := instances c @ [case d of None \<Rightarrow> DefaultDrivers | Some x \<Rightarrow> x],
               singleton_slot := Some (length (instances c))\<rparr>"
  have g: "getInstance d c = (Inr (length (instances c)), ?c')"
    using assms by (simp add: getInstance_result)
  have "singleton_slot ?c' = Some (length (instances c))" by simp
  then have "getInstances ds ?c' = (replicate (length ds) (Inr (length (instances c))), ?c')"
    by (rule getInstances_filled)
  with g show ?thesis by simp
qed

text \<open>
  C9. The constructor rejects every token but the module's own symbol with
  \<^verbatim>\<open>Cannot instantiate directly.\<close> and constructs nothing; with the module's symbol, which
  \<^verbatim>\<open>getInstance\<close> alone passes, it constructs a new factory with the drivers it is given.
  Any sequence of calls of \<^verbatim>\<open>getInstance\<close>, whatever drivers they pass, returns one and the
  same factory and leaves it stored in the class. When the class has a factory stored, that
  factory is the one returned, and nothing is constructed or stored. When it has none, the
  first call constructs one new factory, with the drivers of that call (the module's own
  when it passes none), and stores it; it is the factory every call returns, and no other
  is constructed.
\<close>

theorem C9_singleton_gate:
  "(singletonToken \<noteq> singleton_token \<longrightarrow>
      AdapterFactory_constructor singletonToken drivers c
        = (Inl (Error ''Cannot instantiate directly.''), c))
   \<and> AdapterFactory_constructor singleton_token drivers c
        = (Inr (length (instances c)), c\<lparr>instances := instances c @ [drivers]\<rparr>)
   \<and> (singleton_slot c = Some f \<longrightarrow>
        getInstances ds c = (replicate (length ds) (Inr f), c))
   \<and> (singleton_slot c = None \<longrightarrow>
        getInstances (d # ds) c
          = (replicate (Suc (length ds)) (Inr (length (instances c))),
             c\<lparr>instances := instances c @ [case d of None \<Rightarrow> DefaultDrivers | Some x \<Rightarrow> x],
               singleton_slot := Some (length (instances c))\<rparr>))"
proof (intro conjI impI)
  assume "singletonToken \<noteq> singleton_token"
  then show "AdapterFactory_constructor singletonToken drivers c
      = (Inl (Error ''Cannot instantiate directly.''), c)"
    by (auto simp: AdapterFactory_constructor_def)
next
  show "AdapterFactory_constructor singleton_token drivers c
        = (Inr (length (instances c)), c\<lparr>instances := instances c @ [drivers]\<rparr>)"
    by (simp add: AdapterFactory_constructor_def)
next
  assume "singleton_slot c = Some f"
  then show "getInstances ds c = (replicate (length ds) (Inr f), c)"
    by (rule getInstances_filled)
next
  assume "singleton_slot c = None"
  then show "getInstances (d # ds) c
          = (replicate (Suc (length ds)) (Inr (length (instances c))),
             c\<lparr>instances := instances c @ [case d of None \<Rightarrow> DefaultDrivers | Some x \<Rightarrow> x],
               singleton_slot := Some (length (instances c))\<rparr>)"
    by (rule getInstances_empty)
qed

theorem C9_singleton_gate_witness:
  "Undefined \<noteq> singleton_token
   \<and> AdapterFactory_constructor Undefined DefaultDrivers \<lparr>singleton_slot = None, instances = []\<rparr>
     = (Inl (Error ''Cannot instantiate directly.''), \<lparr>singleton_slot = None, instances = []\<rparr>)
   \<and> singleton_slot \<lparr>singleton_slot = None, instances = []\<rparr> = None
   \<and> getInstances [Some (InjectedDrivers 7), None, Some (InjectedDrivers 8)]
       \<lparr>singleton_slot = None, instances = []\<rparr>
     = ([Inr 0, Inr 0, Inr 0], \<lparr>singleton_slot = Some 0, instances = [InjectedDrivers 7]\<rparr>)
   \<and> singleton_slot \<lparr>singleton_slot = Some 0, instances = [InjectedDrivers 7]\<rparr> = Some 0
   \<and> getInstances [None, Some (InjectedDrivers 8)] \<lparr>singleton_slot = Some 0, instances = [InjectedDrivers 7]\<rparr>
     = ([Inr 0, Inr 0], \<lparr>singleton_slot = Some 0, instances = [InjectedDrivers 7]\<rparr>)"
proof -
  let ?c = "\<lparr>singleton_slot = None, instances = []\<rparr>"
  let ?c' = "\<lparr>singleton_slot = Some 0, instances = [InjectedDrivers 7]\<rparr>"
  have t: "Undefined \<noteq> singleton_token"
    by (simp add: singleton_token_def)
  from C9_singleton_gate [of Undefined DefaultDrivers ?c] t
  have a: "AdapterFactory_constructor Undefined DefaultDrivers ?c
     = (Inl (Error ''Cannot instantiate directly.''), ?c)"
    by blast
  have s: "singleton_slot ?c = None" and s': "singleton_slot ?c' = Some 0" by simp_all
  from C9_singleton_gate [of Undefined DefaultDrivers ?c 0 "[None, Some (InjectedDrivers 8)]"
         "Some (InjectedDrivers 7)"]
  have b: "getInstances [Some (InjectedDrivers 7), None, Some (InjectedDrivers 8)] ?c
     = ([Inr 0, Inr 0, Inr 0], ?c')"
    by simp
  from C9_singleton_gate [of Undefined DefaultDrivers ?c' 0 "[None, Some (InjectedDrivers 8)]"]
  have c: "getInstances [None, Some (InjectedDrivers 8)] ?c' = ([Inr 0, Inr 0], ?c')"
    by simp
  show ?thesis by (intro conjI t a s s' b c)
qed

section \<open>Instance ids of characteristics\<close>

lemma of_char_digit_char: "d < 10 \<Longrightarrow> of_char (digit_char d) = 48 + d"
  by (simp add: digit_char_def)

lemma digit_char_not_dot: "d < 10 \<Longrightarrow> digit_char d \<noteq> CHR ''.''"
proof
  assume "d < 10" and "digit_char d = CHR ''.''"
  then have "(of_char (CHR ''.'') :: nat) = 48 + d"
    using of_char_digit_char [of d] by simp
  then show False by simp
qed

lemma digit_value_digit_char: "d < 10 \<Longrightarrow> digit_value (digit_char d) = d"
  by (auto simp: digit_char_def digit_value_def)

lemma nat_of_decimal_snoc: "nat_of_decimal (s @ [c]) = 10 * nat_of_decimal s + digit_value c"
  by (simp add: nat_of_decimal_def)

lemma nat_of_decimal_toString: "nat_of_decimal (toString n) = n"
proof (induction n rule: toString.induct)
  case (1 n)
  show ?case
  proof (cases "n < 10")
    case True
    then show ?thesis
      by (subst toString.simps) (simp add: nat_of_decimal_def digit_value_digit_char)
  next
    case False
    with 1 have "nat_of_decimal (toString (n div 10)) = n div 10" by simp
    with False show ?thesis
      by (subst toString.simps) (simp add: nat_of_decimal_snoc digit_value_digit_char)
  qed
qed

lemma toString_inj: "toString m = toString n \<Longrightarrow> m = n"
  by (metis nat_of_decimal_toString)

lemma toString_no_dot: "CHR ''.'' \<notin> set (toString n)"
proof (induction n rule: toString.induct)
  case (1 n)
  show ?case
  proof (cases "n < 10")
    case True
    then show ?thesis
      using digit_char_not_dot [of n] by (subst toString.simps) auto
  next
    case False
    with 1 have "CHR ''.'' \<notin> set (toString (n div 10))" by simp
    moreover have "digit_char (n mod 10) \<noteq> CHR ''.''" by (rule digit_char_not_dot) simp
    ultimately show ?thesis using False
      by (subst toString.simps) auto
  qed
qed

lemma takeWhile_rev_separator:
  assumes "c \<notin> set ys"
  shows "takeWhile (\<lambda>x. x \<noteq> c) (rev (xs @ c # ys)) = rev ys"
proof -
  have "takeWhile (\<lambda>x. x \<noteq> c) (rev ys @ c # rev xs) = rev ys @ takeWhile (\<lambda>x. x \<noteq> c) (c # rev xs)"
    by (rule takeWhile_append2) (use assms in auto)
  then show ?thesis by simp
qed

lemma suffix_after_last_separator:
  assumes "xs @ c # ys = xs' @ c # ys'" and "c \<notin> set ys" and "c \<notin> set ys'"
  shows "ys = ys'"
proof -
  have "rev ys = takeWhile (\<lambda>x. x \<noteq> c) (rev (xs @ c # ys))"
    using takeWhile_rev_separator [OF assms(2), of xs] by simp
  also have "\<dots> = takeWhile (\<lambda>x. x \<noteq> c) (rev (xs' @ c # ys'))"
    by (simp only: assms(1))
  also have "\<dots> = rev ys'"
    by (rule takeWhile_rev_separator [OF assms(3)])
  finally show ?thesis by simp
qed

lemma instanceId_inj:
  "s @ ''.'' @ toString m = s' @ ''.'' @ toString n \<Longrightarrow> m = n"
  using suffix_after_last_separator [of s "CHR ''.''" "toString m" s' "toString n"]
  by (simp add: toString_no_dot toString_inj)

lemma increment_le: "i \<le> increment i"
  by (simp add: increment_def)

lemma Characteristic_fields [simp]:
  "char_instanceId (fst (Characteristic s u p v i)) = s @ ''.'' @ toString i"
  "snd (Characteristic s u p v i) = increment i"
  by (simp_all add: Characteristic_def)

lemma construct_all_Cons:
  "construct_all ((s, u, p, v) # rest) i =
     (fst (Characteristic s u p v i) # fst (construct_all rest (increment i)),
      snd (construct_all rest (increment i)))"
  by (simp add: split_beta)

lemma construct_all_append:
  "construct_all (xs @ ys) i =
     (fst (construct_all xs i) @ fst (construct_all ys (snd (construct_all xs i))),
      snd (construct_all ys (snd (construct_all xs i))))"
proof (induction xs arbitrary: i)
  case Nil
  then show ?case by simp
next
  case (Cons a xs)
  obtain s u p v where a: "a = (s, u, p, v)" by (cases a)
  show ?case
    unfolding a append_Cons construct_all_Cons Cons.IH by simp
qed

lemma construct_all_counter:
  assumes "i \<le> 2 ^ 53"
  shows "snd (construct_all args i) = min (i + length args) (2 ^ 53)"
  using assms
proof (induction args arbitrary: i)
  case Nil
  then show ?case by simp
next
  case (Cons a args)
  obtain s u p v where a: "a = (s, u, p, v)" by (cases a)
  from Cons.prems have "increment i \<le> 2 ^ 53" by (simp add: increment_def)
  from Cons.IH [OF this] Cons.prems show ?case
    unfolding a construct_all_Cons by (simp add: increment_def)
qed

lemma construct_all_id_form:
  "c \<in> set (fst (construct_all args i)) \<Longrightarrow>
     \<exists>k s. i \<le> k \<and> char_instanceId c = s @ ''.'' @ toString k"
proof (induction args arbitrary: i)
  case Nil
  then show ?case by simp
next
  case (Cons a args)
  obtain s u p v where a: "a = (s, u, p, v)" by (cases a)
  from Cons.prems consider "c = fst (Characteristic s u p v i)"
    | "c \<in> set (fst (construct_all args (increment i)))"
    unfolding a construct_all_Cons by auto
  then show ?case
  proof cases
    case 1
    then have "char_instanceId c = s @ ''.'' @ toString i" by simp
    then show ?thesis by blast
  next
    case 2
    from Cons.IH [OF this] obtain k s' where "increment i \<le> k"
      "char_instanceId c = s' @ ''.'' @ toString k"
      by blast
    with increment_le [of i] have "i \<le> k \<and> char_instanceId c = s' @ ''.'' @ toString k" by simp
    then show ?thesis by blast
  qed
qed

lemma construct_all_ids:
  assumes "i + length args \<le> 2 ^ 53 + 1"
  shows "map char_instanceId (fst (construct_all args i))
           = map2 (\<lambda>a k. fst a @ ''.'' @ toString k) args [i ..< i + length args]"
  using assms
proof (induction args arbitrary: i)
  case Nil
  then show ?case by simp
next
  case (Cons a args)
  obtain s u p v where a: "a = (s, u, p, v)" by (cases a)
  have u: "[i ..< i + length (a # args)] = i # [Suc i ..< Suc i + length args]"
    by (subst upt_rec) simp
  show ?case
  proof (cases args)
    case Nil
    then show ?thesis unfolding a construct_all_Cons by simp
  next
    case (Cons b bs)
    with Cons.prems have "i < 2 ^ 53" by simp
    then have n: "increment i = Suc i" by (simp add: increment_def)
    from Cons.prems have "Suc i + length args \<le> 2 ^ 53 + 1" by simp
    from Cons.IH [OF this]
    have IH: "map char_instanceId (fst (construct_all args (Suc i)))
           = map2 (\<lambda>a k. fst a @ ''.'' @ toString k) args [Suc i ..< Suc i + length args]" .
    have "map char_instanceId (fst (construct_all (a # args) i))
            = (s @ ''.'' @ toString i) # map char_instanceId (fst (construct_all args (Suc i)))"
      unfolding a construct_all_Cons n by simp
    also have "\<dots> = (s @ ''.'' @ toString i)
                     # map2 (\<lambda>a k. fst a @ ''.'' @ toString k) args [Suc i ..< Suc i + length args]"
      by (simp only: IH)
    also have "\<dots> = map2 (\<lambda>a k. fst a @ ''.'' @ toString k) (a # args)
                       (i # [Suc i ..< Suc i + length args])"
      by (simp add: a)
    also have "\<dots> = map2 (\<lambda>a k. fst a @ ''.'' @ toString k) (a # args)
                       [i ..< i + length (a # args)]"
      by (simp only: u)
    finally show ?thesis .
  qed
qed

lemma construct_all_distinct:
  assumes "i + length args \<le> 2 ^ 53 + 1"
  shows "distinct (map char_instanceId (fst (construct_all args i)))"
  using assms
proof (induction args arbitrary: i)
  case Nil
  then show ?case by simp
next
  case (Cons a args)
  obtain s u p v where a: "a = (s, u, p, v)" by (cases a)
  show ?case
  proof (cases args)
    case Nil
    then show ?thesis unfolding a construct_all_Cons by simp
  next
    case (Cons b bs)
    with Cons.prems have "i < 2 ^ 53" by simp
    then have n: "increment i = Suc i" by (simp add: increment_def)
    from Cons.prems have "Suc i + length args \<le> 2 ^ 53 + 1" by simp
    from Cons.IH [OF this]
    have d: "distinct (map char_instanceId (fst (construct_all args (Suc i))))" .
    have "s @ ''.'' @ toString i \<noteq> char_instanceId c"
      if "c \<in> set (fst (construct_all args (Suc i)))" for c
    proof
      assume eq: "s @ ''.'' @ toString i = char_instanceId c"
      from construct_all_id_form [OF that] obtain k s' where "Suc i \<le> k"
        "char_instanceId c = s' @ ''.'' @ toString k" by blast
      with eq have "i = k" using instanceId_inj [of s i s' k] by simp
      with \<open>Suc i \<le> k\<close> show False by simp
    qed
    with d show ?thesis
      unfolding a construct_all_Cons n by auto
  qed
qed

lemma replicate_two_more: "replicate (m + 2) x = replicate m x @ [x, x]"
  unfolding replicate_add by (simp add: numeral_2_eq_2)

lemma construct_all_repeats:
  assumes "i \<le> 2 ^ 53" and "2 ^ 53 \<le> i + n"
  shows "\<not> distinct (map char_instanceId (fst (construct_all (replicate n a @ [a, a]) i)))"
proof -
  obtain s u p v where a: "a = (s, u, p, v)" by (cases a)
  from assms have c: "snd (construct_all (replicate n a) i) = 2 ^ 53"
    by (simp add: construct_all_counter)
  have "map char_instanceId (fst (construct_all [a, a] (2 ^ 53)))
          = [s @ ''.'' @ toString (2 ^ 53), s @ ''.'' @ toString (2 ^ 53)]"
    unfolding a construct_all_Cons by (simp add: increment_def)
  then show ?thesis
    unfolding construct_all_append [of "replicate n a" "[a, a]" i] c by simp
qed

text \<open>
  C10 (as amended). The characteristics constructed one after another, with whatever
  arguments, have pairwise distinct instance ids as long as at most one of them is
  constructed with the counter at \<open>2 ^ 53\<close>, where the counter stops: each id is the
  service's instance id, a dot and the decimal notation of the counter at the construction,
  and every construction below \<open>2 ^ 53\<close> adds one to the counter, while one at \<open>2 ^ 53\<close>
  leaves it. In particular two characteristics constructed one after the other from the
  same arguments differ in their ids when the first is constructed below \<open>2 ^ 53\<close>.
\<close>

theorem C10_characteristic_instance_ids_distinct:
  assumes "i + length args \<le> 2 ^ 53 + 1"
  shows "distinct (map char_instanceId (fst (construct_all args i)))
     \<and> map char_instanceId (fst (construct_all args i))
         = map2 (\<lambda>a k. fst a @ ''.'' @ toString k) args [i ..< i + length args]
     \<and> (i + length args \<le> 2 ^ 53 \<longrightarrow> snd (construct_all args i) = i + length args)
     \<and> (j \<le> 2 ^ 53 \<longrightarrow>
          char_instanceId (fst (Characteristic s u p v j)) = s @ ''.'' @ toString j
        \<and> snd (Characteristic s u p v j) = (if j < 2 ^ 53 then j + 1 else j))
     \<and> (j < 2 ^ 53 \<longrightarrow>
          char_instanceId (fst (Characteristic s u p v (snd (Characteristic s u p v j))))
            \<noteq> char_instanceId (fst (Characteristic s u p v j)))"
proof (intro conjI impI)
  show "distinct (map char_instanceId (fst (construct_all args i)))"
    by (rule construct_all_distinct [OF assms])
  show "map char_instanceId (fst (construct_all args i))
         = map2 (\<lambda>a k. fst a @ ''.'' @ toString k) args [i ..< i + length args]"
    by (rule construct_all_ids [OF assms])
  show "snd (construct_all args i) = i + length args" if "i + length args \<le> 2 ^ 53"
    using that construct_all_counter [of i args] by simp
  show "char_instanceId (fst (Characteristic s u p v j)) = s @ ''.'' @ toString j"
    by simp
  show "snd (Characteristic s u p v j) = (if j < 2 ^ 53 then j + 1 else j)"
    by (simp add: increment_def)
  show "char_instanceId (fst (Characteristic s u p v (snd (Characteristic s u p v j))))
            \<noteq> char_instanceId (fst (Characteristic s u p v j))" if "j < 2 ^ 53"
    using that toString_inj [of "Suc j" j] by (auto simp: increment_def)
qed

theorem C10_characteristic_instance_ids_distinct_witness:
  "(1::nat) + length [(''svc'', (), (), ()), (''svc'', (), (), ())] \<le> 2 ^ 53 + 1
   \<and> (1::nat) + length [(''svc'', (), (), ()), (''svc'', (), (), ())] \<le> 2 ^ 53
   \<and> (1::nat) < 2 ^ 53
   \<and> distinct (map char_instanceId (fst (construct_all [(''svc'', (), (), ()), (''svc'', (), (), ())] 1)))
   \<and> snd (construct_all [(''svc'', (), (), ()), (''svc'', (), (), ())] 1) = 3
   \<and> char_instanceId (fst (Characteristic ''svc'' () () () (snd (Characteristic ''svc'' () () () 1))))
       \<noteq> char_instanceId (fst (Characteristic ''svc'' () () () 1))"
proof -
  let ?args = "[(''svc'', (), (), ()), (''svc'', (), (), ())]"
  have h: "(1::nat) + length ?args \<le> 2 ^ 53 + 1" and h': "(1::nat) + length ?args \<le> 2 ^ 53"
    and h'': "(1::nat) < 2 ^ 53"
    by simp_all
  note c = C10_characteristic_instance_ids_distinct [OF h, of 1 "''svc''" "()" "()" "()"]
  note a = c [THEN conjunct1]
  from c [THEN conjunct2, THEN conjunct2, THEN conjunct1] h'
  have b: "snd (construct_all ?args 1) = 3" by simp
  from c [THEN conjunct2, THEN conjunct2, THEN conjunct2, THEN conjunct2] h''
  have d: "char_instanceId (fst (Characteristic ''svc'' () () () (snd (Characteristic ''svc'' () () () 1))))
       \<noteq> char_instanceId (fst (Characteristic ''svc'' () () () 1))"
    by blast
  show ?thesis by (intro conjI h h' h'' a b d)
qed

text \<open>
  The claim as stated fails at the end of the counter's range. The counter is a double:
  \<open>2 ^ 53 - 1\<close> constructions take it from 1 to \<open>2 ^ 53\<close>, where \<^verbatim>\<open>i++\<close> leaves it as it
  is, so the next two characteristics of one service get the same instance id.
\<close>

theorem C10_counterexample:
  "snd (construct_all (replicate (2 ^ 53 - 1) (''svc'', (), (), ())) 1) = 2 ^ 53
   \<and> snd (Characteristic ''svc'' () () () (2 ^ 53)) = 2 ^ 53
   \<and> char_instanceId (fst (Characteristic ''svc'' () () () (snd (Characteristic ''svc'' () () () (2 ^ 53)))))
       = char_instanceId (fst (Characteristic ''svc'' () () () (2 ^ 53)))
   \<and> \<not> distinct (map char_instanceId
         (fst (construct_all (replicate (2 ^ 53 + 1) (''svc'', (), (), ())) 1)))"
proof -
  have a: "snd (construct_all (replicate (2 ^ 53 - 1) (''svc'', (), (), ())) 1) = 2 ^ 53"
    by (simp add: construct_all_counter)
  have b: "snd (Characteristic ''svc'' () () () (2 ^ 53)) = 2 ^ 53"
    by (simp add: increment_def)
  have c: "char_instanceId (fst (Characteristic ''svc'' () () () (snd (Characteristic ''svc'' () () () (2 ^ 53)))))
       = char_instanceId (fst (Characteristic ''svc'' () () () (2 ^ 53)))"
    by (simp add: increment_def)
  have n: "(2::nat) ^ 53 + 1 = (2 ^ 53 - 1) + 2" by simp
  have r: "replicate (2 ^ 53 + 1) (''svc'', (), (), ())
             = replicate (2 ^ 53 - 1) (''svc'', (), (), ()) @ [(''svc'', (), (), ()), (''svc'', (), (), ())]"
    unfolding n by (rule replicate_two_more)
  have d: "\<not> distinct (map char_instanceId
         (fst (construct_all (replicate (2 ^ 53 + 1) (''svc'', (), (), ())) 1)))"
    unfolding r by (rule construct_all_repeats) simp_all
  show ?thesis by (intro conjI a b c d)
qed

end
